theory Spec2Isabelle
  imports Main "HOL-Library.Multiset"
begin

section \<open>Values, class ads and exceptions\<close>

text \<open>
  A class ad is a dictionary from attribute names to values. Two kinds of value are
  modelled, integers and strings; attributes of other types (reals, booleans, lists,
  expressions) are outside the model. Times are whole seconds.
\<close>

datatype val = IntV int | StrV string

type_synonym classad = "(string \<times> val) list"

type_synonym doc = "(string \<times> val) list"

definition ad_get :: "classad \<Rightarrow> string \<Rightarrow> val option" where
  "ad_get ad k = map_of ad k"

text \<open>
  The exceptions that occur. \<^verbatim>\<open>except IOError\<close> catches IOError (which is OSError) and
  its subclasses FileNotFoundError and PermissionError; UnicodeDecodeError and
  JSONDecodeError are subclasses of ValueError and are not caught by it.
\<close>

datatype exn =
    RuntimeError | TypeError | ValueError | IOError | JSONDecodeError | TransportError
  | FileNotFoundError | PermissionError | UnicodeDecodeError | OverflowError

fun is_IOError :: "exn \<Rightarrow> bool" where
  "is_IOError IOError = True"
| "is_IOError FileNotFoundError = True"
| "is_IOError PermissionError = True"
| "is_IOError e = False"

text \<open>
  \<^verbatim>\<open>int(v)\<close> and \<^verbatim>\<open>v > 0\<close> on a value. What Python's \<^verbatim>\<open>int\<close> makes of a string is
  given by \<open>parse\<close>: the number the string denotes, \<open>None\<close> where \<^verbatim>\<open>int\<close> raises
  ValueError. A string compared with 0 raises TypeError.
\<close>

fun py_int :: "(string \<Rightarrow> int option) \<Rightarrow> val \<Rightarrow> exn + int" where
  "py_int parse (IntV n) = Inr n"
| "py_int parse (StrV s) = (case parse s of None \<Rightarrow> Inl ValueError | Some n \<Rightarrow> Inr n)"

fun py_gt0 :: "val \<Rightarrow> exn + bool" where
  "py_gt0 (IntV n) = Inr (0 < n)"
| "py_gt0 (StrV s) = Inl TypeError"

section \<open>index\_time: the time a record is bucketed under\<close>

text \<open>
  The guarded first test of \<^verbatim>\<open>index_time\<close>: \<^verbatim>\<open>int(ad.get(index_attr, 0)) > 0\<close>
  inside \<^verbatim>\<open>try ... except (ValueError, TypeError)\<close>. A value that \<^verbatim>\<open>int\<close> rejects is
  logged and passed over; a value that it accepts and finds positive is returned as it
  is, a string that denotes a number included.
\<close>

definition preferred_time :: "(string \<Rightarrow> int option) \<Rightarrow> string \<Rightarrow> classad \<Rightarrow> val option" where
  "preferred_time parse index_attr ad =
     (case ad_get ad index_attr of
        None \<Rightarrow> None
      | Some v \<Rightarrow>
          (case py_int parse v of
             Inl e \<Rightarrow> None
           | Inr n \<Rightarrow> if 0 < n then Some v else None))"

text \<open>
  The unguarded tests \<^verbatim>\<open>if ad.get(k, 0) > 0: return ad[k]\<close>: a value that cannot be
  compared with 0 raises.
\<close>

definition positive_attr :: "classad \<Rightarrow> string \<Rightarrow> exn + val option" where
  "positive_attr ad k =
     (case ad_get ad k of
        None \<Rightarrow> Inr None
      | Some v \<Rightarrow>
          (case py_gt0 v of
             Inl e \<Rightarrow> Inl e
           | Inr b \<Rightarrow> Inr (if b then Some v else None)))"

text \<open>
  The first argument is Python's \<^verbatim>\<open>int\<close> on strings, the second the module constant
  \<^verbatim>\<open>_LAUNCH_TIME\<close>.
\<close>

definition index_time ::
  "(string \<Rightarrow> int option) \<Rightarrow> int \<Rightarrow> string \<Rightarrow> classad \<Rightarrow> exn + val" where
  "index_time parse launch index_attr ad =
     (case preferred_time parse index_attr ad of
        Some v \<Rightarrow> Inr v
      | None \<Rightarrow>
          (case positive_attr ad ''EnteredCurrentStatus'' of
             Inl e \<Rightarrow> Inl e
           | Inr (Some v) \<Rightarrow> Inr v
           | Inr None \<Rightarrow>
               (case positive_attr ad ''QDate'' of
                  Inl e \<Rightarrow> Inl e
                | Inr (Some v) \<Rightarrow> Inr v
                | Inr None \<Rightarrow> Inr (IntV launch))))"

section \<open>Cursors and the checkpoint file\<close>

text \<open>
  A stored cursor is a JSON value: a number for a schedd, an object with the keys
  GlobalJobId and EnteredCurrentStatus for a startd. The checkpoint is a dictionary in
  insertion order.
\<close>

datatype cursor = Scalar int | Composite "val option" int

type_synonym checkpoint = "(string \<times> cursor) list"

fun dict_set :: "('k \<times> 'v) list \<Rightarrow> 'k \<Rightarrow> 'v \<Rightarrow> ('k \<times> 'v) list" where
  "dict_set [] k v = [(k, v)]"
| "dict_set ((k', v') # d) k v =
     (if k' = k then (k, v) # d else (k', v') # dict_set d k v)"

definition dict_get :: "('k \<times> 'v) list \<Rightarrow> 'k \<Rightarrow> 'v \<Rightarrow> 'v" where
  "dict_get d k dflt = (case map_of d k of None \<Rightarrow> dflt | Some v \<Rightarrow> v)"

text \<open>
  The states of \<^verbatim>\<open>checkpoint.json\<close>: no such file; a file that cannot be opened or
  read; a file whose bytes are not text in the encoding of \<^verbatim>\<open>open\<close>; the JSON text of a
  mapping from names to cursors (what \<^verbatim>\<open>update_checkpoint\<close> writes); and \<open>Torn es\<close>, a
  file that is not valid JSON: an unterminated text holding only the entries \<open>es\<close>,
  which is what a write that stops early leaves behind (\<open>Torn []\<close> is the file just
  after it was opened for writing). A file with valid JSON of another shape is outside
  the model.
\<close>

datatype file_state =
    Absent
  | Unreadable
  | Undecodable
  | Complete checkpoint
  | Torn checkpoint

text \<open>\<^verbatim>\<open>open("checkpoint.json", "r")\<close>\<close>

fun open_r :: "file_state \<Rightarrow> exn + file_state" where
  "open_r Absent = Inl FileNotFoundError"
| "open_r Unreadable = Inl PermissionError"
| "open_r fs = Inr fs"

text \<open>\<^verbatim>\<open>json.load(fd)\<close>: read, decode, parse.\<close>

fun json_load :: "file_state \<Rightarrow> exn + checkpoint" where
  "json_load (Complete cp) = Inr cp"
| "json_load (Torn es) = Inl JSONDecodeError"
| "json_load Undecodable = Inl UnicodeDecodeError"
| "json_load fs = Inl IOError"

text \<open>\<^verbatim>\<open>load_checkpoint\<close>: the two steps in a \<^verbatim>\<open>try\<close> with the handler \<^verbatim>\<open>except IOError\<close>.\<close>

definition load_checkpoint :: "file_state \<Rightarrow> exn + checkpoint" where
  "load_checkpoint fs =
     (case (case open_r fs of Inl e \<Rightarrow> Inl e | Inr fd \<Rightarrow> json_load fd) of
        Inl e \<Rightarrow> if is_IOError e then Inr [] else Inl e
      | Inr checkpoint \<Rightarrow> Inr checkpoint)"

text \<open>
  What can go wrong while \<^verbatim>\<open>update_checkpoint\<close> writes: \<^verbatim>\<open>open(..., "w")\<close> fails
  (nothing is touched), or \<^verbatim>\<open>json.dump\<close> fails after some entries went out to the file
  that \<^verbatim>\<open>open\<close> already truncated.
\<close>

datatype write_fault = Open_fails | Dump_fails nat

definition update_checkpoint ::
  "write_fault option \<Rightarrow> file_state \<Rightarrow> string \<Rightarrow> cursor \<Rightarrow> (exn + unit) \<times> file_state" where
  "update_checkpoint fault fs name completion_date =
     (case load_checkpoint fs of
        Inl e \<Rightarrow> (Inl e, fs)
      | Inr cp \<Rightarrow>
          (let cp' = dict_set cp name completion_date in
           case fault of
             None \<Rightarrow> (Inr (), Complete cp')
           | Some Open_fails \<Rightarrow> (Inl IOError, fs)
           | Some (Dump_fails n) \<Rightarrow> (Inl IOError, Torn (take n cp'))))"

section \<open>Queries\<close>

text \<open>
  The schedd constraint is the expression \<^verbatim>\<open>( EnteredCurrentStatus >= c )\<close>. A class-ad
  comparison on an attribute that is undefined or not a number is not true, so such a
  record is not selected.
\<close>

datatype constraint = Attr_ge string int

definition history_query :: "int \<Rightarrow> constraint" where
  "history_query last_completion = Attr_ge ''EnteredCurrentStatus'' last_completion"

fun selects :: "constraint \<Rightarrow> classad \<Rightarrow> bool" where
  "selects (Attr_ge a c) ad =
     (case ad_get ad a of Some (IntV t) \<Rightarrow> c \<le> t | _ \<Rightarrow> False)"

text \<open>
  A query as handed to the daemon: \<^verbatim>\<open>schedd.history(constraint, [], limit)\<close>, or
  \<^verbatim>\<open>startd.history("True", [], since=...)\<close> where the \<^verbatim>\<open>since\<close> expression names the
  cursor record by its GlobalJobId and EnteredCurrentStatus.
\<close>

datatype query =
    Schedd_history constraint int
  | Startd_history "val option" int

section \<open>The history workers\<close>

text \<open>The options of the run that the workers read.\<close>

record args =
  read_only :: bool
  dry_run :: bool
  es_feed_schedd_history :: bool
  es_feed_startd_history :: bool
  process_max_documents :: int
  es_bunch_size :: int
  es_index_date_attr :: string

datatype kind = Schedd | Startd

definition feed :: "kind \<Rightarrow> args \<Rightarrow> bool" where
  "feed k a = (case k of Schedd \<Rightarrow> es_feed_schedd_history a | Startd \<Rightarrow> es_feed_startd_history a)"

text \<open>The guard in front of every \<^verbatim>\<open>elastic.post_ads\<close> call.\<close>

definition sink_enabled :: "kind \<Rightarrow> args \<Rightarrow> bool" where
  "sink_enabled k a \<longleftrightarrow> \<not> read_only a \<and> feed k a"

text \<open>
  What a worker meets outside itself. The modules \<^verbatim>\<open>utils\<close>, \<^verbatim>\<open>elastic\<close> and
  \<^verbatim>\<open>convert\<close> and the daemons are given by what they answer:
  \<^item> \<open>launch_time\<close> is \<^verbatim>\<open>_LAUNCH_TIME\<close>, read off the clock when the module is imported;
  \<^item> \<open>my_start\<close> is \<^verbatim>\<open>time.time()\<close> when the worker is entered;
  \<^item> \<open>time_remaining n\<close> is what the \<open>n\<close>-th call of \<^verbatim>\<open>utils.time_remaining(start_time)\<close>
    of this run returns;
  \<^item> \<open>history q\<close> is the records the daemon yields for the query, and the exception its
    iterator raises after them, if any;
  \<^item> \<open>to_json\<close> is \<^verbatim>\<open>convert.to_json\<close>, \<open>None\<close> where it raises;
  \<^item> \<open>str_int\<close> is Python's \<^verbatim>\<open>int\<close> on a string, \<open>None\<close> where it raises ValueError;
  \<^item> \<open>fromtimestamp t\<close> is the exception that \<^verbatim>\<open>datetime.datetime.fromtimestamp(t)\<close>
    raises on this platform (a time it cannot represent), \<open>None\<close> where it returns;
  \<^item> \<open>post_ads n\<close> is the exception the \<open>n\<close>-th call of \<^verbatim>\<open>elastic.post_ads\<close> of this
    run raises, \<open>None\<close> where it returns.
  \<^verbatim>\<open>convert.unique_doc_id\<close>, \<^verbatim>\<open>elastic.get_index\<close>, \<^verbatim>\<open>elastic.get_server_handle\<close>
  and \<^verbatim>\<open>utils.send_email_alert\<close> are taken to return.
\<close>

record 'i world =
  launch_time :: int
  my_start :: int
  time_remaining :: "nat \<Rightarrow> int"
  history :: "query \<Rightarrow> classad list \<times> exn option"
  to_json :: "classad \<Rightarrow> doc option"
  unique_doc_id :: "doc \<Rightarrow> string"
  get_index :: "val \<Rightarrow> 'i"
  post_ads :: "nat \<Rightarrow> exn option"
  str_int :: "string \<Rightarrow> int option"
  fromtimestamp :: "int \<Rightarrow> exn option"

text \<open>
  The effects of a run, in the order they happen: an alert mail (by subject), the query,
  a document appended to the batch of an index, a batch that \<^verbatim>\<open>post_ads\<close> accepted, a
  batch on which it raised, and the message put on the checkpoint queue.
\<close>

datatype 'i event =
    Alert string
  | Query query
  | Buffered 'i "string \<times> doc"
  | Post 'i "(string \<times> doc) list"
  | Post_failed 'i "(string \<times> doc) list" exn
  | Checkpoint string cursor

text \<open>
  The local variables of a worker. \<open>since\<close> is used by \<^verbatim>\<open>process_startd\<close> only;
  \<open>clock_calls\<close> and \<open>post_calls\<close> count the calls made so far.
\<close>

record 'i lstate =
  buffered_ads :: "('i \<times> (string \<times> doc) list) list"
  count :: int
  sent_warnings :: bool
  timed_out :: bool
  last_completion :: int
  since :: "val option \<times> int"
  events :: "'i event list"
  clock_calls :: nat
  post_calls :: nat

datatype flow = Next | Break | Raise exn

text \<open>The handler of a failed conversion: one mail per run, then \<^verbatim>\<open>continue\<close>.\<close>

definition conversion_failed :: "'i lstate \<Rightarrow> 'i lstate" where
  "conversion_failed s =
     (if sent_warnings s then s
      else s\<lparr>events := events s @ [Alert ''spider history document conversion error''],
             sent_warnings := True\<rparr>)"

text \<open>\<^verbatim>\<open>buffered_ads.setdefault(idx, []).append(...)\<close>\<close>

definition buffer_doc :: "'i \<Rightarrow> string \<times> doc \<Rightarrow> 'i lstate \<Rightarrow> 'i lstate" where
  "buffer_doc idx entry s =
     s\<lparr>buffered_ads := dict_set (buffered_ads s) idx (dict_get (buffered_ads s) idx [] @ [entry]),
       events := events s @ [Buffered idx entry]\<rparr>"

text \<open>One call of \<^verbatim>\<open>elastic.post_ads\<close>.\<close>

definition post :: "'i world \<Rightarrow> 'i \<Rightarrow> (string \<times> doc) list \<Rightarrow> 'i lstate \<Rightarrow> exn option \<times> 'i lstate" where
  "post w idx ad_list s =
     (case post_ads w (post_calls s) of
        None \<Rightarrow>
          (None, s\<lparr>events := events s @ [Post idx ad_list], post_calls := Suc (post_calls s)\<rparr>)
      | Some e \<Rightarrow>
          (Some e, s\<lparr>events := events s @ [Post_failed idx ad_list e],
                      post_calls := Suc (post_calls s)\<rparr>))"

text \<open>The batch of \<open>idx\<close> has reached \<^verbatim>\<open>es_bunch_size\<close>: post it if the sink is on, empty it.\<close>

definition flush_full ::
  "'i world \<Rightarrow> args \<Rightarrow> kind \<Rightarrow> 'i \<Rightarrow> 'i lstate \<Rightarrow> exn option \<times> 'i lstate" where
  "flush_full w a k idx s =
     (let ad_list = dict_get (buffered_ads s) idx [] in
      if int (length ad_list) = es_bunch_size a then
        (case (if sink_enabled k a then post w idx ad_list s else (None, s)) of
           (Some e, s') \<Rightarrow> (Some e, s')
         | (None, s') \<Rightarrow> (None, s'\<lparr>buffered_ads := dict_set (buffered_ads s') idx []\<rparr>))
      else (None, s))"

text \<open>
  The running maximum. \<^verbatim>\<open>job_ad.get("EnteredCurrentStatus") > last_completion\<close> raises
  TypeError when the attribute is missing or not a number.
\<close>

definition advance :: "kind \<Rightarrow> classad \<Rightarrow> 'i lstate \<Rightarrow> exn option \<times> 'i lstate" where
  "advance k job_ad s =
     (case ad_get job_ad ''EnteredCurrentStatus'' of
        Some (IntV job_completion) \<Rightarrow>
          (None,
           if job_completion > last_completion s then
             (case k of
                Schedd \<Rightarrow> s\<lparr>last_completion := job_completion\<rparr>
              | Startd \<Rightarrow>
                  s\<lparr>last_completion := job_completion,
                    since := (ad_get job_ad ''GlobalJobId'', job_completion)\<rparr>)
           else s)
      | _ \<Rightarrow> (Some TypeError, s))"

text \<open>The two early exits at the end of the loop body.\<close>

definition check_limits :: "'i world \<Rightarrow> args \<Rightarrow> 'i lstate \<Rightarrow> flow \<times> 'i lstate" where
  "check_limits w a s =
     (let s' = s\<lparr>clock_calls := Suc (clock_calls s)\<rparr> in
      if time_remaining w (clock_calls s) < 0 then
        (Break, s'\<lparr>events := events s @ [Alert ''spider history timeout warning''],
                   timed_out := True\<rparr>)
      else if process_max_documents a \<noteq> 0 \<and> count s > process_max_documents a then (Break, s')
      else (Next, s'))"

text \<open>The loop body for one record of the history.\<close>

definition step ::
  "'i world \<Rightarrow> args \<Rightarrow> kind \<Rightarrow> classad \<Rightarrow> 'i lstate \<Rightarrow> flow \<times> 'i lstate" where
  "step w a k job_ad s =
     (case to_json w job_ad of
        None \<Rightarrow> (Next, conversion_failed s)
      | Some dict_ad \<Rightarrow>
          (case index_time (str_int w) (launch_time w) (es_index_date_attr a) job_ad of
             Inl e \<Rightarrow> (Raise e, s)
           | Inr t \<Rightarrow>
               (let idx = get_index w t;
                    s1 = buffer_doc idx (unique_doc_id w dict_ad, dict_ad) s
                in case flush_full w a k idx s1 of
                     (Some e, s2) \<Rightarrow> (Raise e, s2)
                   | (None, s2) \<Rightarrow>
                       (case advance k job_ad (s2\<lparr>count := count s2 + 1\<rparr>) of
                          (Some e, s3) \<Rightarrow> (Raise e, s3)
                        | (None, s3) \<Rightarrow> check_limits w a s3))))"

fun loop ::
  "'i world \<Rightarrow> args \<Rightarrow> kind \<Rightarrow> classad list \<Rightarrow> 'i lstate \<Rightarrow> flow \<times> 'i lstate" where
  "loop w a k [] s = (Next, s)"
| "loop w a k (job_ad # rest) s =
     (case step w a k job_ad s of
        (Next, s') \<Rightarrow> loop w a k rest s'
      | (Break, s') \<Rightarrow> (Break, s')
      | (Raise e, s') \<Rightarrow> (Raise e, s'))"

definition query_error_subject :: "kind \<Rightarrow> string" where
  "query_error_subject k =
     (case k of Schedd \<Rightarrow> ''spider schedd history query error''
              | Startd \<Rightarrow> ''spider startd history query error'')"

text \<open>
  The \<^verbatim>\<open>try\<close> block: the query, the loop, and the two handlers. RuntimeError is logged;
  any other exception is logged and mailed. Either way the worker goes on to the
  remaining batches.
\<close>

definition harvest :: "'i world \<Rightarrow> args \<Rightarrow> kind \<Rightarrow> query \<Rightarrow> 'i lstate \<Rightarrow> 'i lstate" where
  "harvest w a k q s =
     (case
        (if dry_run a then (Next, s)
         else
           (case loop w a k (fst (history w q)) (s\<lparr>events := events s @ [Query q]\<rparr>) of
              (Next, s') \<Rightarrow>
                ((case snd (history w q) of None \<Rightarrow> Next | Some e \<Rightarrow> Raise e), s')
            | (Break, s') \<Rightarrow> (Break, s')
            | (Raise e, s') \<Rightarrow> (Raise e, s')))
      of
        (Raise RuntimeError, s') \<Rightarrow> s'
      | (Raise e, s') \<Rightarrow> s'\<lparr>events := events s' @ [Alert (query_error_subject k)]\<rparr>
      | (_, s') \<Rightarrow> s')"

text \<open>"Post the remaining ads": an exception of \<^verbatim>\<open>post_ads\<close> here leaves the worker.\<close>

fun post_remaining ::
  "'i world \<Rightarrow> bool \<Rightarrow> ('i \<times> (string \<times> doc) list) list \<Rightarrow> 'i lstate \<Rightarrow> exn option \<times> 'i lstate" where
  "post_remaining w enabled [] s = (None, s)"
| "post_remaining w enabled ((idx, ad_list) # items) s =
     (if ad_list \<noteq> [] \<and> enabled then
        (case post w idx ad_list s of
           (Some e, s') \<Rightarrow> (Some e, s')
         | (None, s') \<Rightarrow> post_remaining w enabled items s')
      else post_remaining w enabled items s)"

definition cursor_of :: "kind \<Rightarrow> 'i lstate \<Rightarrow> cursor" where
  "cursor_of k s =
     (case k of Schedd \<Rightarrow> Scalar (last_completion s)
              | Startd \<Rightarrow> Composite (fst (since s)) (snd (since s)))"

text \<open>
  The end of a worker: the summary line formats \<^verbatim>\<open>last_completion\<close> with
  \<^verbatim>\<open>datetime.datetime.fromtimestamp\<close>, which raises out of the worker on a time it
  cannot represent; then the checkpoint message, unless the run timed out.
\<close>

definition finish :: "'i world \<Rightarrow> kind \<Rightarrow> string \<Rightarrow> 'i lstate \<Rightarrow> exn option \<times> 'i lstate" where
  "finish w k name s =
     (case fromtimestamp w (last_completion s) of
        Some e \<Rightarrow> (Some e, s)
      | None \<Rightarrow>
          (None, if timed_out s then s
                 else s\<lparr>events := events s @ [Checkpoint name (cursor_of k s)]\<rparr>))"

text \<open>
  Everything after the preflight test: the harvest, the remaining batches, the summary
  line and the checkpoint message. The other log lines are left out.
\<close>

definition worker ::
  "'i world \<Rightarrow> args \<Rightarrow> kind \<Rightarrow> string \<Rightarrow> query \<Rightarrow> 'i lstate \<Rightarrow> exn option \<times> 'i lstate" where
  "worker w a k name q s0 =
     (let s1 = harvest w a k q s0 in
      case post_remaining w (sink_enabled k a) (buffered_ads s1) s1 of
        (Some e, s2) \<Rightarrow> (Some e, s2)
      | (None, s2) \<Rightarrow> finish w k name s2)"

definition init_state :: "int \<Rightarrow> val option \<times> int \<Rightarrow> 'i lstate" where
  "init_state lc sn =
     \<lparr>buffered_ads = [], count = 0, sent_warnings = False, timed_out = False,
      last_completion = lc, since = sn, events = [], clock_calls = 1, post_calls = 0\<rparr>"

definition no_time :: "'i lstate \<Rightarrow> 'i lstate" where
  "no_time s = s\<lparr>events := [Alert ''spider history timeout warning'']\<rparr>"

text \<open>
  \<^verbatim>\<open>process_schedd\<close>: the result is the returned \<^verbatim>\<open>last_completion\<close>, or the exception
  that leaves the function, together with the final state and its effects.
\<close>

definition process_schedd ::
  "'i world \<Rightarrow> int \<Rightarrow> string \<Rightarrow> args \<Rightarrow> (exn + int) \<times> 'i lstate" where
  "process_schedd w last_compl name a =
     (let s0 = init_state last_compl (None, 0) in
      if time_remaining w 0 < 0 then (Inr last_compl, no_time s0)
      else
        (case worker w a Schedd name
                (Schedd_history (history_query last_compl) (max 10000 (process_max_documents a))) s0 of
           (Some e, s) \<Rightarrow> (Inl e, s)
         | (None, s) \<Rightarrow> (Inr (last_completion s), s)))"

text \<open>\<^verbatim>\<open>process_startd\<close>: the cursor is the pair \<^verbatim>\<open>since\<close>.\<close>

definition process_startd ::
  "'i world \<Rightarrow> val option \<times> int \<Rightarrow> string \<Rightarrow> args \<Rightarrow> (exn + val option \<times> int) \<times> 'i lstate" where
  "process_startd w snc machine a =
     (let s0 = init_state (snd snc) snc in
      if time_remaining w 0 < 0 then (Inr snc, no_time s0)
      else
        (case worker w a Startd machine (Startd_history (fst snc) (snd snc)) s0 of
           (Some e, s) \<Rightarrow> (Inl e, s)
         | (None, s) \<Rightarrow> (Inr (since s), s)))"

section \<open>Waiting for the workers\<close>

text \<open>
  What \<^verbatim>\<open>future.get(timeout)\<close> does: it returns, or raises
  \<^verbatim>\<open>multiprocessing.TimeoutError\<close>, the sink's TransportError, or another exception of
  the worker. A future is given by what it answers to each timeout.
\<close>

datatype get_result = Returned | Timeout_error | Transport_error | Other_error exn

datatype hevent = Wait string int | Mail string | Pool_terminate | Poison_pill

text \<open>
  The loop over the futures in \<^verbatim>\<open>process_histories\<close>. In round \<open>i\<close>,
  \<open>raw i\<close> is what \<^verbatim>\<open>utils.time_remaining(starttime, positive=False)\<close> returns and
  \<open>remaining i\<close> what \<^verbatim>\<open>utils.time_remaining(starttime)\<close> returns. The result is the
  exception that leaves the loop (if any), the flag \<^verbatim>\<open>timed_out\<close>, and the effects.
\<close>

fun wait_loop ::
  "(nat \<Rightarrow> int) \<Rightarrow> (nat \<Rightarrow> int) \<Rightarrow> nat \<Rightarrow> (string \<times> (int \<Rightarrow> get_result)) list
     \<Rightarrow> exn option \<times> bool \<times> hevent list" where
  "wait_loop raw remaining i [] = (None, False, [])"
| "wait_loop raw remaining i ((name, future) # rest) =
     (if raw i > - 30 then
        (let timeout = remaining i + 10 in
         case future timeout of
           Returned \<Rightarrow>
             (case wait_loop raw remaining (Suc i) rest of
                (r, t, es) \<Rightarrow> (r, t, Wait name timeout # es))
         | Timeout_error \<Rightarrow>
             (case wait_loop raw remaining (Suc i) rest of
                (r, t, es) \<Rightarrow>
                  (r, t, Wait name timeout # Mail ''spider history timeout warning'' # es))
         | Transport_error \<Rightarrow>
             (case wait_loop raw remaining (Suc i) rest of
                (r, t, es) \<Rightarrow>
                  (r, t, Wait name timeout # Mail ''spider history transport error warning'' # es))
         | Other_error e \<Rightarrow> (Some e, False, [Wait name timeout]))
      else (None, True, []))"

text \<open>
  \<^verbatim>\<open>process_histories\<close> from the loop on: the pool is terminated if the loop gave up,
  then the poison pill is put on the checkpoint queue.
\<close>

definition process_histories ::
  "(nat \<Rightarrow> int) \<Rightarrow> (nat \<Rightarrow> int) \<Rightarrow> (string \<times> (int \<Rightarrow> get_result)) list
     \<Rightarrow> exn option \<times> hevent list" where
  "process_histories raw remaining futures =
     (case wait_loop raw remaining 0 futures of
        (Some e, t, es) \<Rightarrow> (Some e, es)
      | (None, t, es) \<Rightarrow>
          (None, es @ (if t then [Pool_terminate] else []) @ [Poison_pill]))"

section \<open>Reading the effects of a run\<close>

fun is_query :: "'i event \<Rightarrow> bool" where
  "is_query (Query q) = True"
| "is_query e = False"

fun is_checkpoint :: "'i event \<Rightarrow> bool" where
  "is_checkpoint (Checkpoint n c) = True"
| "is_checkpoint e = False"

text \<open>The events of the loop and of the flushes: everything but the query and the checkpoint.\<close>

fun inner :: "'i event \<Rightarrow> bool" where
  "inner (Query q) = False"
| "inner (Checkpoint n c) = False"
| "inner e = True"

fun buffered :: "'i event \<Rightarrow> (string \<times> doc) list" where
  "buffered (Buffered idx entry) = [entry]"
| "buffered e = []"

fun posted :: "'i event \<Rightarrow> (string \<times> doc) list" where
  "posted (Post idx ad_list) = ad_list"
| "posted e = []"

fun bucket :: "'i event \<Rightarrow> 'i list" where
  "bucket (Buffered idx entry) = [idx]"
| "bucket e = []"

text \<open>The documents put into batches, the documents the sink accepted, the bucket keys used.\<close>

definition buffered_docs :: "'i event list \<Rightarrow> (string \<times> doc) list" where
  "buffered_docs es = concat (map buffered es)"

definition posted_docs :: "'i event list \<Rightarrow> (string \<times> doc) list" where
  "posted_docs es = concat (map posted es)"

definition buckets :: "'i event list \<Rightarrow> 'i list" where
  "buckets es = concat (map bucket es)"

definition conversion_alerts :: "'i event list \<Rightarrow> nat" where
  "conversion_alerts es =
     length (filter (\<lambda>e. e = Alert ''spider history document conversion error'') es)"

text \<open>The documents still held in batches.\<close>

definition pending :: "'i lstate \<Rightarrow> (string \<times> doc) list" where
  "pending s = concat (map snd (buffered_ads s))"

text \<open>
  \<open>grows s s'\<close>: from \<open>s\<close> to \<open>s'\<close> the effects were only added to, and by events of
  the loop and the flushes. \<open>balanced s\<close>: every document put into a batch so far has
  been accepted by the sink or is still held in a batch.
\<close>

definition grows :: "'i lstate \<Rightarrow> 'i lstate \<Rightarrow> bool" where
  "grows s s' \<longleftrightarrow> (\<exists>es. events s' = events s @ es \<and> list_all inner es)"

definition balanced :: "'i lstate \<Rightarrow> bool" where
  "balanced s \<longleftrightarrow>
     mset (buffered_docs (events s)) = mset (posted_docs (events s)) + mset (pending s)"

text \<open>
  \<open>warned s\<close>: the flag \<^verbatim>\<open>sent_warnings\<close> tells whether the conversion alert has gone out.
\<close>

definition warned :: "'i lstate \<Rightarrow> bool" where
  "warned s \<longleftrightarrow> conversion_alerts (events s) = (if sent_warnings s then 1 else 0)"

text \<open>
  Of a list of records: the documents of those that convert, and the
  EnteredCurrentStatus of those that convert and carry a number there.
\<close>

definition derived :: "'i world \<Rightarrow> classad list \<Rightarrow> (string \<times> doc) list" where
  "derived w ads =
     concat (map (\<lambda>ad. case to_json w ad of
                          None \<Rightarrow> []
                        | Some d \<Rightarrow> [(unique_doc_id w d, d)]) ads)"

definition stamps :: "'i world \<Rightarrow> classad list \<Rightarrow> int list" where
  "stamps w ads =
     concat (map (\<lambda>ad. case to_json w ad of
                          None \<Rightarrow> []
                        | Some d \<Rightarrow>
                            (case ad_get ad ''EnteredCurrentStatus'' of
                               Some (IntV t) \<Rightarrow> [t]
                             | _ \<Rightarrow> [])) ads)"

section \<open>The startd query, as the specification reads it\<close>



text \<open>The state in which \<^verbatim>\<open>process_startd\<close> enters its loop.\<close>

definition startd_entry :: "val option \<times> int \<Rightarrow> 'i lstate" where
  "startd_entry snc =
     (init_state (snd snc) snc)\<lparr>events := [Query (Startd_history (fst snc) (snd snc))]\<rparr>"

section \<open>Sample inputs\<close>

text \<open>
  A record that carries only EnteredCurrentStatus; the options of a run that feeds the
  sink, with no cap; and a world in which nothing goes wrong: a minute is always left,
  the daemon yields the given records, every record but the empty one converts, every
  post is accepted, the index of a time is that time, the string 150 denotes the number
  150, and every cursor can be formatted.
\<close>

abbreviation job :: "int \<Rightarrow> classad" where
  "job t \<equiv> [(''EnteredCurrentStatus'', IntV t)]"

abbreviation feeding :: args where
  "feeding \<equiv> \<lparr>read_only = False, dry_run = False, es_feed_schedd_history = True,
     es_feed_startd_history = True, process_max_documents = 0, es_bunch_size = 250,
     es_index_date_attr = ''CompletionDate''\<rparr>"

abbreviation calm :: "classad list \<Rightarrow> val world" where
  "calm ads \<equiv> \<lparr>launch_time = 1000, my_start = 2000, time_remaining = (\<lambda>n. 60),
     history = (\<lambda>q. (ads, None)), to_json = (\<lambda>ad. if ad = [] then None else Some ad),
     unique_doc_id = (\<lambda>d. ''id''), get_index = (\<lambda>v. v), post_ads = (\<lambda>n. None),
     str_int = (\<lambda>s. if s = ''150'' then Some 150 else None), fromtimestamp = (\<lambda>t. None)\<rparr>"

section \<open>The checkpoint file\<close>

lemma load_checkpoint_simps [simp]:
  "load_checkpoint Absent = Inr []"
  "load_checkpoint Unreadable = Inr []"
  "load_checkpoint Undecodable = Inl UnicodeDecodeError"
  "load_checkpoint (Complete cp) = Inr cp"
  "load_checkpoint (Torn es) = Inl JSONDecodeError"
  by (simp_all add: load_checkpoint_def)

lemma map_of_dict_set: "map_of (dict_set d k v) = (map_of d)(k \<mapsto> v)"
  by (induction d k v rule: dict_set.induct) (auto simp: fun_eq_iff)

text \<open>
  C4, as stated, fails: on a file that is present but is not valid JSON,
  \<^verbatim>\<open>load_checkpoint\<close> raises JSONDecodeError instead of returning the empty mapping.
\<close>

theorem load_checkpoint_malformed_raises:
  "load_checkpoint (Torn [(''submit1'', Scalar 1700000000)]) = Inl JSONDecodeError \<and>
   load_checkpoint (Torn [(''submit1'', Scalar 1700000000)]) \<noteq> Inr []"
  by simp

text \<open>
  C4, amended: \<^verbatim>\<open>load_checkpoint\<close> returns the stored mapping when the file holds one
  (so what a successful \<^verbatim>\<open>update_checkpoint\<close> wrote is what it returns), and the empty
  mapping when the file is absent or cannot be opened or read: no IOError leaves it. It
  does raise on a file that is present but is not valid JSON (JSONDecodeError) or not
  decodable text (UnicodeDecodeError).
\<close>

theorem load_checkpoint_results:
  "load_checkpoint Absent = Inr [] \<and>
   load_checkpoint Unreadable = Inr [] \<and>
   load_checkpoint (Complete cp) = Inr cp \<and>
   load_checkpoint (Torn es) = Inl JSONDecodeError \<and>
   load_checkpoint Undecodable = Inl UnicodeDecodeError \<and>
   (open_r fs = Inl e \<longrightarrow> load_checkpoint fs = Inr []) \<and>
   (load_checkpoint fs = Inl e \<longrightarrow> \<not> is_IOError e \<and> json_load fs = Inl e) \<and>
   (load_checkpoint fs = Inr m \<longrightarrow>
      load_checkpoint (snd (update_checkpoint None fs name c)) = Inr (dict_set m name c))"
proof -
  have 1: "open_r fs = Inl e \<longrightarrow> load_checkpoint fs = Inr []"
    by (cases fs) (auto simp: load_checkpoint_def)
  have 2: "load_checkpoint fs = Inl e \<longrightarrow> \<not> is_IOError e \<and> json_load fs = Inl e"
    by (cases fs) auto
  have 3: "load_checkpoint fs = Inr m \<longrightarrow>
      load_checkpoint (snd (update_checkpoint None fs name c)) = Inr (dict_set m name c)"
    by (simp add: update_checkpoint_def)
  from 1 2 3 show ?thesis by simp
qed

text \<open>
  The amended C4 at work: the absent file, a torn file, and a load after an update.
\<close>

theorem load_checkpoint_results_witness:
  "open_r Absent = Inl FileNotFoundError \<and> load_checkpoint Absent = Inr [] \<and>
   load_checkpoint (Torn [(''submit1'', Scalar 100)]) = Inl JSONDecodeError \<and>
   \<not> is_IOError JSONDecodeError \<and>
   load_checkpoint (Complete [(''submit1'', Scalar 100)]) = Inr [(''submit1'', Scalar 100)] \<and>
   load_checkpoint (snd (update_checkpoint None (Complete [(''submit1'', Scalar 100)])
                           ''submit2'' (Scalar 7)))
     = Inr [(''submit1'', Scalar 100), (''submit2'', Scalar 7)]"
  using load_checkpoint_results[of _ _ Absent FileNotFoundError _ _ _]
    load_checkpoint_results[of _ _ "Torn [(''submit1'', Scalar 100)]" JSONDecodeError _ _ _]
    load_checkpoint_results[of _ _ "Complete [(''submit1'', Scalar 100)]" _
      "[(''submit1'', Scalar 100)]" "''submit2''" "Scalar 7"]
  by simp

text \<open>
  C5, as stated, fails: a write that stops after the first entry leaves a file that is
  neither the previous store nor the complete new one.
\<close>

theorem update_checkpoint_torn_write:
  "snd (update_checkpoint (Some (Dump_fails 1))
          (Complete [(''submit1'', Scalar 100), (''submit2'', Scalar 200)]) ''submit2'' (Scalar 300))
     = Torn [(''submit1'', Scalar 100)] \<and>
   snd (update_checkpoint (Some (Dump_fails 1))
          (Complete [(''submit1'', Scalar 100), (''submit2'', Scalar 200)]) ''submit2'' (Scalar 300))
     \<noteq> Complete [(''submit1'', Scalar 100), (''submit2'', Scalar 200)] \<and>
   snd (update_checkpoint (Some (Dump_fails 1))
          (Complete [(''submit1'', Scalar 100), (''submit2'', Scalar 200)]) ''submit2'' (Scalar 300))
     \<noteq> Complete [(''submit1'', Scalar 100), (''submit2'', Scalar 300)]"
  by (simp add: update_checkpoint_def)

text \<open>
  C5, amended: \<^verbatim>\<open>update_checkpoint\<close> reads the whole mapping, sets the one key and
  rewrites the file in place. When the write succeeds the store holds the complete new
  mapping; when the file cannot be opened for writing the store is untouched; when the
  dump fails partway the previous contents are gone and the store holds a torn prefix of
  the new mapping, which the next load rejects.
\<close>

theorem update_checkpoint_rewrites_in_place:
  assumes "load_checkpoint fs = Inr cp"
  shows "update_checkpoint None fs name c = (Inr (), Complete (dict_set cp name c)) \<and>
         map_of (dict_set cp name c) = (map_of cp)(name \<mapsto> c) \<and>
         update_checkpoint (Some Open_fails) fs name c = (Inl IOError, fs) \<and>
         update_checkpoint (Some (Dump_fails n)) fs name c
           = (Inl IOError, Torn (take n (dict_set cp name c))) \<and>
         load_checkpoint (snd (update_checkpoint (Some (Dump_fails n)) fs name c))
           = Inl JSONDecodeError"
  using assms by (simp add: update_checkpoint_def map_of_dict_set)

text \<open>
  The amended C5 at work: a successful update and one that fails after the first entry.
\<close>

theorem update_checkpoint_rewrites_in_place_witness:
  "load_checkpoint (Complete [(''submit1'', Scalar 100)]) = Inr [(''submit1'', Scalar 100)] \<and>
   update_checkpoint None (Complete [(''submit1'', Scalar 100)]) ''submit2'' (Scalar 7)
     = (Inr (), Complete [(''submit1'', Scalar 100), (''submit2'', Scalar 7)]) \<and>
   update_checkpoint (Some (Dump_fails 1)) (Complete [(''submit1'', Scalar 100)]) ''submit2'' (Scalar 7)
     = (Inl IOError, Torn [(''submit1'', Scalar 100)])"
  using update_checkpoint_rewrites_in_place
    [of "Complete [(''submit1'', Scalar 100)]" "[(''submit1'', Scalar 100)]" "''submit2''" "Scalar 7" 1]
  by simp

section \<open>The wait on each worker\<close>

lemma wait_loop_timeouts:
  "Wait n t \<in> set (snd (snd (wait_loop raw remaining i fs))) \<Longrightarrow>
   \<exists>j < length fs. fst (fs ! j) = n \<and> t = remaining (i + j) + 10 \<and> raw (i + j) > - 30"
proof (induction fs arbitrary: i)
  case Nil
  then show ?case by simp
next
  case (Cons f fs)
  obtain name fut where f: "f = (name, fut)" by (cases f)
  show ?case
  proof (cases "Wait n t = Wait name (remaining i + 10) \<and> raw i > - 30")
    case True
    then show ?thesis using f by (intro exI[of _ 0]) simp
  next
    case False
    with Cons.prems f have "Wait n t \<in> set (snd (snd (wait_loop raw remaining (Suc i) fs)))"
      by (auto simp: Let_def split: if_splits get_result.splits prod.splits)
    from Cons.IH[OF this] obtain j where "j < length fs" "fst (fs ! j) = n"
      "t = remaining (Suc i + j) + 10" "raw (Suc i + j) > - 30" by blast
    then show ?thesis by (intro exI[of _ "Suc j"]) simp
  qed
qed

text \<open>
  C6, as stated, fails: with 100 seconds remaining the wait on a worker is given 110
  seconds, not max(10, 100) = 100.
\<close>

theorem wait_timeout_is_sum:
  "process_histories (\<lambda>i. 100) (\<lambda>i. 100) [(''submit1'', \<lambda>t. Returned)]
     = (None, [Wait ''submit1'' 110, Poison_pill]) \<and> (110::int) \<noteq> max 10 100"
  by (simp add: process_histories_def)

text \<open>
  C6, amended: every wait of \<^verbatim>\<open>process_histories\<close> is on one of the futures, in a round
  whose 30-second allowance is not yet used up, and its timeout is the remaining time
  read at that moment plus 10 seconds.
\<close>

theorem wait_timeout_amended:
  assumes "Wait n t \<in> set (snd (process_histories raw remaining fs))"
  shows "\<exists>j < length fs. fst (fs ! j) = n \<and> t = remaining j + 10 \<and> raw j > - 30"
proof -
  from assms have "Wait n t \<in> set (snd (snd (wait_loop raw remaining 0 fs)))"
    by (auto simp: process_histories_def split: prod.splits option.splits if_splits)
  from wait_loop_timeouts[OF this] show ?thesis by simp
qed

text \<open>
  The amended C6 at work: nothing remains, the wait is given 10 seconds.
\<close>

theorem wait_timeout_amended_witness:
  "Wait ''submit1'' 10
     \<in> set (snd (process_histories (\<lambda>i. - 5) (\<lambda>i. 0) [(''submit1'', \<lambda>t. Timeout_error)])) \<and>
   (\<exists>j < length [(''submit1'', \<lambda>t::int. Timeout_error)].
      fst ([(''submit1'', \<lambda>t::int. Timeout_error)] ! j) = ''submit1'' \<and>
      (10::int) = 0 + 10 \<and> (- 5::int) > - 30)"
proof -
  have h: "Wait ''submit1'' 10
      \<in> set (snd (process_histories (\<lambda>i. - 5) (\<lambda>i. 0) [(''submit1'', \<lambda>t. Timeout_error)]))"
    by (simp add: process_histories_def)
  from wait_timeout_amended[OF h] h show ?thesis by simp
qed

section \<open>The workers\<close>

lemmas run_defs =
  process_schedd_def process_startd_def worker_def harvest_def init_state_def no_time_def step_def
  index_time_def preferred_time_def positive_attr_def ad_get_def buffer_doc_def flush_full_def
  dict_get_def sink_enabled_def feed_def post_def advance_def check_limits_def history_query_def
  conversion_failed_def cursor_of_def query_error_subject_def finish_def Let_def

subsection \<open>Dictionaries\<close>

lemma mset_dict_set:
  "mset (concat (map snd (dict_set d k v))) + mset (dict_get d k [])
     = mset (concat (map snd d)) + mset v"
  by (induction d k v rule: dict_set.induct) (auto simp: dict_get_def)

subsection \<open>Events only grow\<close>

lemma grows_refl [simp]: "grows s s"
  by (simp add: grows_def)

lemma grows_trans: "grows s s1 \<Longrightarrow> grows s1 s2 \<Longrightarrow> grows s s2"
  by (auto simp: grows_def)

lemma grows_conversion_failed: "grows s (conversion_failed s)"
  by (simp add: grows_def conversion_failed_def)

lemma grows_buffer_doc: "grows s (buffer_doc idx entry s)"
  by (simp add: grows_def buffer_doc_def)

lemma grows_post: "grows s (snd (post w idx l s))"
  by (simp add: grows_def post_def split: option.splits)

lemma grows_flush_full: "grows s (snd (flush_full w a k idx s))"
  using grows_post[of s w idx "dict_get (buffered_ads s) idx []"]
  by (auto simp: flush_full_def Let_def grows_def split: prod.splits option.splits)

lemma grows_advance: "grows s (snd (advance k ad s))"
  by (auto simp: advance_def grows_def split: option.splits val.splits kind.splits)

lemma grows_check_limits: "grows s (snd (check_limits w a s))"
  by (auto simp: check_limits_def grows_def Let_def)

lemma grows_count: "grows s (s\<lparr>count := c\<rparr>)"
  by (simp add: grows_def)

subsection \<open>The loop body, case by case\<close>

lemma step_failed: "to_json w ad = None \<Longrightarrow> step w a k ad s = (Next, conversion_failed s)"
  by (simp add: step_def)

lemma step_index_raises:
  "to_json w ad = Some d \<Longrightarrow> index_time (str_int w) (launch_time w) (es_index_date_attr a) ad = Inl e \<Longrightarrow>
   step w a k ad s = (Raise e, s)"
  by (simp add: step_def)

lemma step_flush_raises:
  "to_json w ad = Some d \<Longrightarrow> index_time (str_int w) (launch_time w) (es_index_date_attr a) ad = Inr t \<Longrightarrow>
   flush_full w a k (get_index w t) (buffer_doc (get_index w t) (unique_doc_id w d, d) s) = (Some e, s2) \<Longrightarrow>
   step w a k ad s = (Raise e, s2)"
  by (simp add: step_def)

lemma step_advance_raises:
  "to_json w ad = Some d \<Longrightarrow> index_time (str_int w) (launch_time w) (es_index_date_attr a) ad = Inr t \<Longrightarrow>
   flush_full w a k (get_index w t) (buffer_doc (get_index w t) (unique_doc_id w d, d) s) = (None, s2) \<Longrightarrow>
   advance k ad (s2\<lparr>count := count s2 + 1\<rparr>) = (Some e, s3) \<Longrightarrow>
   step w a k ad s = (Raise e, s3)"
  by (simp add: step_def)

lemma step_through:
  "to_json w ad = Some d \<Longrightarrow> index_time (str_int w) (launch_time w) (es_index_date_attr a) ad = Inr t \<Longrightarrow>
   flush_full w a k (get_index w t) (buffer_doc (get_index w t) (unique_doc_id w d, d) s) = (None, s2) \<Longrightarrow>
   advance k ad (s2\<lparr>count := count s2 + 1\<rparr>) = (None, s3) \<Longrightarrow>
   step w a k ad s = check_limits w a s3"
  by (simp add: step_def)

lemma step_cases [consumes 1, case_names Failed Index_raises Flush_raises Advance_raises Through]:
  assumes "step w a k ad s = (fl, s')"
  obtains
    "to_json w ad = None" "fl = Next" "s' = conversion_failed s"
  | d e where "to_json w ad = Some d"
      "index_time (str_int w) (launch_time w) (es_index_date_attr a) ad = Inl e" "fl = Raise e" "s' = s"
  | d t e where "to_json w ad = Some d"
      "index_time (str_int w) (launch_time w) (es_index_date_attr a) ad = Inr t"
      "flush_full w a k (get_index w t) (buffer_doc (get_index w t) (unique_doc_id w d, d) s) = (Some e, s')"
      "fl = Raise e"
  | d t s2 e where "to_json w ad = Some d"
      "index_time (str_int w) (launch_time w) (es_index_date_attr a) ad = Inr t"
      "flush_full w a k (get_index w t) (buffer_doc (get_index w t) (unique_doc_id w d, d) s) = (None, s2)"
      "advance k ad (s2\<lparr>count := count s2 + 1\<rparr>) = (Some e, s')" "fl = Raise e"
  | d t s2 s3 where "to_json w ad = Some d"
      "index_time (str_int w) (launch_time w) (es_index_date_attr a) ad = Inr t"
      "flush_full w a k (get_index w t) (buffer_doc (get_index w t) (unique_doc_id w d, d) s) = (None, s2)"
      "advance k ad (s2\<lparr>count := count s2 + 1\<rparr>) = (None, s3)"
      "check_limits w a s3 = (fl, s')"
proof (cases "to_json w ad")
  case None
  with assms step_failed[OF None, of a k s] that(1) show ?thesis by simp
next
  case (Some d)
  show ?thesis
  proof (cases "index_time (str_int w) (launch_time w) (es_index_date_attr a) ad")
    case (Inl e)
    with assms step_index_raises[OF Some Inl, of k s] that(2)[OF Some Inl] show ?thesis by simp
  next
    case (Inr t)
    obtain r2 s2 where f: "flush_full w a k (get_index w t)
        (buffer_doc (get_index w t) (unique_doc_id w d, d) s) = (r2, s2)"
      by (cases "flush_full w a k (get_index w t) (buffer_doc (get_index w t) (unique_doc_id w d, d) s)")
    show ?thesis
    proof (cases r2)
      case (Some e)
      with assms step_flush_raises[OF \<open>to_json w ad = Some d\<close> Inr] f
        that(3)[OF \<open>to_json w ad = Some d\<close> Inr]
      show ?thesis by simp
    next
      case None
      obtain r3 s3 where ad: "advance k ad (s2\<lparr>count := count s2 + 1\<rparr>) = (r3, s3)"
        by (cases "advance k ad (s2\<lparr>count := count s2 + 1\<rparr>)")
      show ?thesis
      proof (cases r3)
        case (Some e)
        with assms step_advance_raises[OF \<open>to_json w ad = Some d\<close> Inr] f None ad
          that(4)[OF \<open>to_json w ad = Some d\<close> Inr]
        show ?thesis by simp
      next
        case N3: None
        with assms step_through[OF \<open>to_json w ad = Some d\<close> Inr] f None ad
          that(5)[OF \<open>to_json w ad = Some d\<close> Inr]
        show ?thesis by simp
      qed
    qed
  qed
qed

lemma grows_step:
  assumes "step w a k ad s = (fl, s')"
  shows "grows s s'"
  using assms
proof (cases rule: step_cases)
  case Failed
  then show ?thesis by (simp add: grows_conversion_failed)
next
  case (Index_raises d e)
  then show ?thesis by simp
next
  case (Flush_raises d t e)
  then show ?thesis
    using grows_buffer_doc[of s "get_index w t" "(unique_doc_id w d, d)"]
      grows_flush_full[of "buffer_doc (get_index w t) (unique_doc_id w d, d) s" w a k "get_index w t"]
    by (metis grows_trans snd_conv)
next
  case (Advance_raises d t s2 e)
  then show ?thesis
    using grows_buffer_doc[of s "get_index w t" "(unique_doc_id w d, d)"]
      grows_flush_full[of "buffer_doc (get_index w t) (unique_doc_id w d, d) s" w a k "get_index w t"]
      grows_count[of s2 "count s2 + 1"] grows_advance[of "s2\<lparr>count := count s2 + 1\<rparr>" k ad]
    by (metis grows_trans snd_conv)
next
  case (Through d t s2 s3)
  then show ?thesis
    using grows_buffer_doc[of s "get_index w t" "(unique_doc_id w d, d)"]
      grows_flush_full[of "buffer_doc (get_index w t) (unique_doc_id w d, d) s" w a k "get_index w t"]
      grows_count[of s2 "count s2 + 1"] grows_advance[of "s2\<lparr>count := count s2 + 1\<rparr>" k ad]
      grows_check_limits[of s3 w a]
    by (metis grows_trans snd_conv)
qed

lemma grows_loop: "loop w a k ads s = (fl, s') \<Longrightarrow> grows s s'"
proof (induction ads arbitrary: s)
  case Nil
  then show ?case by simp
next
  case (Cons ad ads)
  obtain fl1 s1 where st: "step w a k ad s = (fl1, s1)" by (cases "step w a k ad s")
  have g: "grows s s1" using grows_step[OF st] .
  show ?case
  proof (cases fl1)
    case Next
    with Cons.prems st have "loop w a k ads s1 = (fl, s')" by simp
    from Cons.IH[OF this] g show ?thesis by (rule grows_trans[rotated])
  next
    case Break
    with Cons.prems st g show ?thesis by simp
  next
    case (Raise e)
    with Cons.prems st g show ?thesis by simp
  qed
qed

lemma grows_post_remaining: "post_remaining w en items s = (r, s') \<Longrightarrow> grows s s'"
proof (induction items arbitrary: s)
  case Nil
  then show ?case by simp
next
  case (Cons it items)
  obtain idx l where it: "it = (idx, l)" by (cases it)
  show ?case
  proof (cases "l \<noteq> [] \<and> en")
    case False
    with Cons.prems it have "post_remaining w en items s = (r, s')" by auto
    from Cons.IH[OF this] show ?thesis .
  next
    case True
    obtain r1 s1 where p: "post w idx l s = (r1, s1)" by (cases "post w idx l s")
    have g: "grows s s1" using grows_post[of s w idx l] p by simp
    show ?thesis
    proof (cases r1)
      case None
      with Cons.prems it True p have "post_remaining w en items s1 = (r, s')" by simp
      from Cons.IH[OF this] g show ?thesis by (rule grows_trans[rotated])
    next
      case (Some e)
      with Cons.prems it True p g show ?thesis by simp
    qed
  qed
qed

lemma harvest_events:
  "\<exists>es. list_all inner es \<and>
     events (harvest w a k q s) = events s @ (if dry_run a then [] else [Query q]) @ es"
proof (cases "dry_run a")
  case True
  then show ?thesis by (simp add: harvest_def)
next
  case False
  obtain fl s1 where l: "loop w a k (fst (history w q)) (s\<lparr>events := events s @ [Query q]\<rparr>) = (fl, s1)"
    by (cases "loop w a k (fst (history w q)) (s\<lparr>events := events s @ [Query q]\<rparr>)")
  from grows_loop[OF l] obtain es where es: "events s1 = events s @ [Query q] @ es" "list_all inner es"
    by (auto simp: grows_def)
  have "events (harvest w a k q s) = events s1 \<or>
        events (harvest w a k q s) = events s1 @ [Alert (query_error_subject k)]"
    using False l by (simp add: harvest_def split: flow.splits option.splits exn.splits)
  then show ?thesis
  proof
    assume "events (harvest w a k q s) = events s1"
    with es False show ?thesis by auto
  next
    assume "events (harvest w a k q s) = events s1 @ [Alert (query_error_subject k)]"
    with es False show ?thesis by (intro exI[of _ "es @ [Alert (query_error_subject k)]"]) simp
  qed
qed

lemma finish_cases:
  assumes "finish w k name s = (r, s')"
  shows "(\<exists>e. r = Some e \<and> fromtimestamp w (last_completion s) = Some e \<and> s' = s) \<or>
     (r = None \<and> fromtimestamp w (last_completion s) = None \<and>
      s' = (if timed_out s then s else s\<lparr>events := events s @ [Checkpoint name (cursor_of k s)]\<rparr>))"
  using assms by (auto simp: finish_def split: option.splits)

lemma cursor_of_events [simp]: "cursor_of k (s\<lparr>events := es\<rparr>) = cursor_of k s"
  by (simp add: cursor_of_def split: kind.splits)

lemma worker_cases:
  assumes "worker w a k name q s = (r, s')"
  obtains (Flush_raised) e where
      "post_remaining w (sink_enabled k a) (buffered_ads (harvest w a k q s)) (harvest w a k q s)
         = (Some e, s')" "r = Some e"
  | (Format_raised) s2 e where
      "post_remaining w (sink_enabled k a) (buffered_ads (harvest w a k q s)) (harvest w a k q s)
         = (None, s2)" "fromtimestamp w (last_completion s2) = Some e" "r = Some e" "s' = s2"
  | (Timed_out) s2 where
      "post_remaining w (sink_enabled k a) (buffered_ads (harvest w a k q s)) (harvest w a k q s)
         = (None, s2)" "fromtimestamp w (last_completion s2) = None" "timed_out s2"
      "r = None" "s' = s2"
  | (Checkpointed) s2 where
      "post_remaining w (sink_enabled k a) (buffered_ads (harvest w a k q s)) (harvest w a k q s)
         = (None, s2)" "fromtimestamp w (last_completion s2) = None" "\<not> timed_out s2"
      "r = None" "s' = s2\<lparr>events := events s2 @ [Checkpoint name (cursor_of k s2)]\<rparr>"
proof -
  define s1 where "s1 = harvest w a k q s"
  obtain r2 s2 where pr: "post_remaining w (sink_enabled k a) (buffered_ads s1) s1 = (r2, s2)"
    by (cases "post_remaining w (sink_enabled k a) (buffered_ads s1) s1")
  show ?thesis
  proof (cases r2)
    case (Some e)
    with assms pr have "r = Some e" "s' = s2" by (simp_all add: worker_def s1_def[symmetric] Let_def)
    with pr Some Flush_raised show ?thesis by (simp add: s1_def)
  next
    case None
    with assms pr have f: "finish w k name s2 = (r, s')"
      by (simp add: worker_def s1_def[symmetric] Let_def)
    from finish_cases[OF f] pr None Format_raised Timed_out Checkpointed show ?thesis
      unfolding s1_def by (cases "timed_out s2") auto
  qed
qed

lemma worker_events:
  assumes "worker w a k name q s = (r, s')"
  shows "\<exists>es. list_all inner es \<and>
     events s' = events s @ (if dry_run a then [] else [Query q]) @ es @
       (if r = None \<and> \<not> timed_out s' then [Checkpoint name (cursor_of k s')] else [])"
proof -
  obtain es1 where es1: "list_all inner es1"
      "events (harvest w a k q s) = events s @ (if dry_run a then [] else [Query q]) @ es1"
    using harvest_events[of w a k q s] by blast
  have *: "\<exists>es. list_all inner es \<and>
      events s2 = events s @ (if dry_run a then [] else [Query q]) @ es"
    if "post_remaining w (sink_enabled k a) (buffered_ads (harvest w a k q s)) (harvest w a k q s)
          = (r2, s2)" for r2 s2
  proof -
    from grows_post_remaining[OF that] obtain es2 where
      "events s2 = events (harvest w a k q s) @ es2" "list_all inner es2"
      by (auto simp: grows_def)
    with es1 show ?thesis by (intro exI[of _ "es1 @ es2"]) simp
  qed
  from assms show ?thesis
  proof (cases rule: worker_cases)
    case (Flush_raised e)
    with *[OF Flush_raised(1)] show ?thesis by simp
  next
    case (Format_raised s2 e)
    with *[OF Format_raised(1)] show ?thesis by simp
  next
    case (Timed_out s2)
    with *[OF Timed_out(1)] show ?thesis by simp
  next
    case (Checkpointed s2)
    with *[OF Checkpointed(1)] show ?thesis by auto
  qed
qed

subsection \<open>The query of a schedd run\<close>

lemma filter_query_inner: "list_all inner es \<Longrightarrow> filter is_query es = []"
  by (induction es) (auto elim: inner.elims)

lemma selects_history_query:
  "selects (history_query c) ad \<longleftrightarrow> (\<exists>t. ad_get ad ''EnteredCurrentStatus'' = Some (IntV t) \<and> c \<le> t)"
  by (auto simp: history_query_def split: option.splits val.splits)

lemma events_init_state [simp]: "events (init_state lc sn) = []"
  by (simp add: init_state_def)

text \<open>
  C2, as stated, fails: the constraint that a schedd run with cursor 100 hands to the
  daemon selects a record whose EnteredCurrentStatus is 100.
\<close>

theorem history_query_selects_equal:
  "selects (history_query 100) (job 100) \<and>
   filter is_query (events (snd (process_schedd (calm [job 100]) 100 ''submit1'' feeding)))
     = [Query (Schedd_history (history_query 100) 10000)]"
  by (simp add: run_defs)

text \<open>
  C2, amended: a schedd run that gets past the preflight test and is not a dry run hands
  the daemon exactly one query, whose constraint selects the records whose
  EnteredCurrentStatus is a number greater than or equal to the starting cursor: a record
  whose EnteredCurrentStatus equals the cursor is selected again.
\<close>

theorem schedd_query_ge:
  assumes "0 \<le> time_remaining w 0" and "\<not> dry_run a"
  shows "filter is_query (events (snd (process_schedd w c name a)))
           = [Query (Schedd_history (history_query c) (max 10000 (process_max_documents a)))] \<and>
         (selects (history_query c) ad \<longleftrightarrow>
            (\<exists>t. ad_get ad ''EnteredCurrentStatus'' = Some (IntV t) \<and> c \<le> t))"
proof -
  let ?q = "Schedd_history (history_query c) (max 10000 (process_max_documents a))"
  obtain r s' where wk: "worker w a Schedd name ?q (init_state c (None, 0)) = (r, s')"
    by (cases "worker w a Schedd name ?q (init_state c (None, 0))")
  from worker_events[OF wk] assms(2) obtain es where es: "list_all inner es"
    "events s' = [Query ?q] @ es @
       (if r = None \<and> \<not> timed_out s' then [Checkpoint name (cursor_of Schedd s')] else [])"
    by auto
  have "snd (process_schedd w c name a) = s'"
    using assms(1) wk by (cases r) (simp_all add: process_schedd_def Let_def)
  then show ?thesis
    using es filter_query_inner[OF es(1)] selects_history_query[of c ad] by simp
qed

text \<open>
  The amended C2 at work: cursor 100, one record with EnteredCurrentStatus 100.
\<close>

theorem schedd_query_ge_witness:
  "0 \<le> time_remaining (calm [job 100]) 0 \<and> \<not> dry_run feeding \<and>
   filter is_query (events (snd (process_schedd (calm [job 100]) 100 ''submit1'' feeding)))
     = [Query (Schedd_history (history_query 100) 10000)] \<and>
   selects (history_query 100) (job 100)"
  using schedd_query_ge[of "calm [job 100]" feeding 100 "''submit1''" "job 100"]
  by (simp add: ad_get_def)

subsection \<open>Documents buffered and posted\<close>

lemma docs_append [simp]:
  "buffered_docs (es @ es') = buffered_docs es @ buffered_docs es'"
  "posted_docs (es @ es') = posted_docs es @ posted_docs es'"
  by (simp_all add: buffered_docs_def posted_docs_def)

lemma docs_single [simp]:
  "buffered_docs [e] = buffered e" "posted_docs [e] = posted e"
  "buffered_docs [] = []" "posted_docs [] = []"
  by (simp_all add: buffered_docs_def posted_docs_def)

lemma balanced_conversion_failed: "balanced s \<Longrightarrow> balanced (conversion_failed s)"
  by (simp add: balanced_def conversion_failed_def pending_def)

lemma balanced_buffer_doc:
  assumes "balanced s"
  shows "balanced (buffer_doc idx entry s)"
proof -
  have "mset (pending (buffer_doc idx entry s)) + mset (dict_get (buffered_ads s) idx [])
      = mset (pending s) + mset (dict_get (buffered_ads s) idx [] @ [entry])"
    using mset_dict_set[of "buffered_ads s" idx "dict_get (buffered_ads s) idx [] @ [entry]"]
    by (simp add: pending_def buffer_doc_def)
  then have "mset (pending (buffer_doc idx entry s)) = mset (pending s) + {#entry#}"
    by simp
  with assms show ?thesis by (simp add: balanced_def buffer_doc_def)
qed

lemma post_fields:
  assumes "post w idx l s = (r, s')"
  shows "buffered_ads s' = buffered_ads s"
    and "buffered_docs (events s') = buffered_docs (events s)"
    and "posted_docs (events s') = posted_docs (events s) @ (if r = None then l else [])"
    and "timed_out s' = timed_out s" and "last_completion s' = last_completion s"
    and "since s' = since s" and "count s' = count s" and "sent_warnings s' = sent_warnings s"
    and "clock_calls s' = clock_calls s"
  using assms by (auto simp: post_def split: option.splits)

lemma post_result: "post w idx l s = (r, s') \<Longrightarrow> r = post_ads w (post_calls s)"
  by (auto simp: post_def split: option.splits)

lemma balanced_flush_full:
  assumes "sink_enabled k a" and "balanced s" and "flush_full w a k idx s = (r, s')"
  shows "balanced s'"
proof (cases "int (length (dict_get (buffered_ads s) idx [])) = es_bunch_size a")
  case False
  with assms show ?thesis by (simp add: flush_full_def Let_def)
next
  case True
  let ?l = "dict_get (buffered_ads s) idx []"
  obtain r1 s1 where p: "post w idx ?l s = (r1, s1)" by (cases "post w idx ?l s")
  note pf = post_fields[OF p]
  show ?thesis
  proof (cases r1)
    case (Some e)
    with assms True p have "s' = s1" by (simp add: flush_full_def Let_def)
    with pf Some assms(2) show ?thesis by (simp add: balanced_def pending_def)
  next
    case None
    with assms True p have s': "s' = s1\<lparr>buffered_ads := dict_set (buffered_ads s1) idx []\<rparr>"
      by (simp add: flush_full_def Let_def)
    have pend: "mset (pending s) = mset (pending s') + mset ?l"
      using mset_dict_set[of "buffered_ads s" idx "[]"] pf(1) by (simp add: s' pending_def)
    have "buffered_docs (events s') = buffered_docs (events s)"
      and "posted_docs (events s') = posted_docs (events s) @ ?l"
      using pf(2,3) None by (simp_all add: s')
    with assms(2) pend show ?thesis by (simp add: balanced_def)
  qed
qed

lemma balanced_count: "balanced s \<Longrightarrow> balanced (s\<lparr>count := c\<rparr>)"
  by (simp add: balanced_def pending_def)

lemma balanced_advance: "balanced s \<Longrightarrow> balanced (snd (advance k ad s))"
  by (auto simp: advance_def balanced_def pending_def split: option.splits val.splits kind.splits)

lemma balanced_check_limits: "balanced s \<Longrightarrow> balanced (snd (check_limits w a s))"
  by (auto simp: check_limits_def balanced_def pending_def Let_def)

lemma balanced_step:
  assumes "sink_enabled k a" and "balanced s" and "step w a k ad s = (fl, s')"
  shows "balanced s'"
  using assms(3)
proof (cases rule: step_cases)
  case Failed
  with assms(2) show ?thesis by (simp add: balanced_conversion_failed)
next
  case (Index_raises d e)
  with assms(2) show ?thesis by simp
next
  case (Flush_raises d t e)
  from balanced_flush_full[OF assms(1) balanced_buffer_doc[OF assms(2)] Flush_raises(3)]
  show ?thesis .
next
  case (Advance_raises d t s2 e)
  from balanced_flush_full[OF assms(1) balanced_buffer_doc[OF assms(2)] Advance_raises(3)]
  have "balanced s2" .
  from balanced_advance[OF balanced_count[OF this, of "count s2 + 1"], of k ad] Advance_raises(4)
  show ?thesis by simp
next
  case (Through d t s2 s3)
  from balanced_flush_full[OF assms(1) balanced_buffer_doc[OF assms(2)] Through(3)]
  have "balanced s2" .
  from balanced_advance[OF balanced_count[OF this, of "count s2 + 1"], of k ad] Through(4)
  have "balanced s3" by simp
  from balanced_check_limits[OF this, of w a] Through(5) show ?thesis by simp
qed

lemma balanced_loop:
  "sink_enabled k a \<Longrightarrow> balanced s \<Longrightarrow> loop w a k ads s = (fl, s') \<Longrightarrow> balanced s'"
proof (induction ads arbitrary: s)
  case Nil
  then show ?case by simp
next
  case (Cons ad ads)
  obtain fl1 s1 where st: "step w a k ad s = (fl1, s1)" by (cases "step w a k ad s")
  have b: "balanced s1" using balanced_step[OF Cons.prems(1,2) st] .
  show ?case
  proof (cases fl1)
    case Next
    with Cons.prems st have "loop w a k ads s1 = (fl, s')" by simp
    from Cons.IH[OF Cons.prems(1) b this] show ?thesis .
  next
    case Break
    with Cons.prems st b show ?thesis by simp
  next
    case (Raise e)
    with Cons.prems st b show ?thesis by simp
  qed
qed

lemma balanced_events:
  "balanced s \<Longrightarrow> buffered e = [] \<Longrightarrow> posted e = [] \<Longrightarrow> balanced (s\<lparr>events := events s @ [e]\<rparr>)"
  by (simp add: balanced_def pending_def)

lemma balanced_harvest:
  assumes "sink_enabled k a" and "balanced s"
  shows "balanced (harvest w a k q s)"
proof (cases "dry_run a")
  case True
  with assms show ?thesis by (simp add: harvest_def)
next
  case False
  let ?s0 = "s\<lparr>events := events s @ [Query q]\<rparr>"
  have b0: "balanced ?s0" using assms(2) by (simp add: balanced_events)
  obtain fl s1 where l: "loop w a k (fst (history w q)) ?s0 = (fl, s1)"
    by (cases "loop w a k (fst (history w q)) ?s0")
  have b1: "balanced s1" using balanced_loop[OF assms(1) b0 l] .
  then have b2: "balanced (s1\<lparr>events := events s1 @ [Alert (query_error_subject k)]\<rparr>)"
    by (simp add: balanced_events)
  have "harvest w a k q s = s1 \<or>
        harvest w a k q s = s1\<lparr>events := events s1 @ [Alert (query_error_subject k)]\<rparr>"
    using False l by (simp add: harvest_def split: flow.splits option.splits exn.splits)
  with b1 b2 show ?thesis by auto
qed

lemma post_remaining_done:
  "post_remaining w True items s = (None, s') \<Longrightarrow>
   posted_docs (events s') = posted_docs (events s) @ concat (map snd items) \<and>
   buffered_docs (events s') = buffered_docs (events s) \<and>
   timed_out s' = timed_out s \<and> last_completion s' = last_completion s \<and> since s' = since s"
proof (induction items arbitrary: s)
  case Nil
  then show ?case by simp
next
  case (Cons it items)
  obtain idx l where it: "it = (idx, l)" by (cases it)
  show ?case
  proof (cases "l = []")
    case True
    with Cons.prems it have "post_remaining w True items s = (None, s')" by simp
    from Cons.IH[OF this] True it show ?thesis by simp
  next
    case False
    obtain r1 s1 where p: "post w idx l s = (r1, s1)" by (cases "post w idx l s")
    with Cons.prems it False have r1: "r1 = None" and rest: "post_remaining w True items s1 = (None, s')"
      by (auto split: option.splits)
    from Cons.IH[OF rest] post_fields[OF p] r1 it show ?thesis by simp
  qed
qed

lemma post_remaining_fields:
  "post_remaining w en items s = (r, s') \<Longrightarrow>
   timed_out s' = timed_out s \<and> last_completion s' = last_completion s \<and> since s' = since s
   \<and> buffered_docs (events s') = buffered_docs (events s) \<and> count s' = count s"
proof (induction items arbitrary: s)
  case Nil
  then show ?case by simp
next
  case (Cons it items)
  obtain idx l where it: "it = (idx, l)" by (cases it)
  show ?case
  proof (cases "l \<noteq> [] \<and> en")
    case False
    with Cons.prems it have "post_remaining w en items s = (r, s')" by auto
    from Cons.IH[OF this] show ?thesis .
  next
    case True
    obtain r1 s1 where p: "post w idx l s = (r1, s1)" by (cases "post w idx l s")
    show ?thesis
    proof (cases r1)
      case None
      with Cons.prems it True p have "post_remaining w en items s1 = (r, s')" by simp
      from Cons.IH[OF this] post_fields[OF p] show ?thesis by simp
    next
      case (Some e)
      with Cons.prems it True p post_fields[OF p] show ?thesis by simp
    qed
  qed
qed

lemma worker_all_posted:
  assumes "sink_enabled k a" and "balanced s" and "worker w a k name q s = (None, s')"
  shows "mset (buffered_docs (events s')) = mset (posted_docs (events s'))"
proof -
  have b1: "balanced (harvest w a k q s)" by (rule balanced_harvest[OF assms(1,2)])
  have *: "mset (buffered_docs (events s2)) = mset (posted_docs (events s2))"
    if "post_remaining w (sink_enabled k a) (buffered_ads (harvest w a k q s)) (harvest w a k q s)
          = (None, s2)" for s2
    using post_remaining_done[OF that[unfolded assms(1)[THEN eqTrueI]]] b1
    by (simp add: balanced_def pending_def)
  from assms(3) show ?thesis
  proof (cases rule: worker_cases)
    case (Timed_out s2)
    with *[OF Timed_out(1)] show ?thesis by simp
  next
    case (Checkpointed s2)
    with *[OF Checkpointed(1)] show ?thesis by simp
  qed simp_all
qed

subsection \<open>The checkpoint is the last effect\<close>

lemma inner_no_checkpoint: "list_all inner es \<Longrightarrow> filter is_checkpoint es = []"
  by (induction es) (auto elim: inner.elims)

lemma inner_not_checkpoint: "list_all inner es \<Longrightarrow> Checkpoint n c \<notin> set es"
  by (induction es) auto

lemma balanced_init_state: "balanced (init_state lc sn)"
  by (simp add: balanced_def init_state_def pending_def)

lemma worker_checkpoint_last:
  assumes en: "sink_enabled k a"
    and wk: "worker w a k name q (init_state lc sn) = (r, s')"
    and ck: "Checkpoint n c \<in> set (events s')"
  shows "r = None \<and> n = name \<and> c = cursor_of k s' \<and>
    (\<exists>pre. events s' = pre @ [Checkpoint n c] \<and> filter is_checkpoint pre = [] \<and>
           mset (buffered_docs pre) = mset (posted_docs pre))"
proof -
  from worker_events[OF wk] obtain es where es: "list_all inner es"
    "events s' = (if dry_run a then [] else [Query q]) @ es @
       (if r = None \<and> \<not> timed_out s' then [Checkpoint name (cursor_of k s')] else [])"
    by auto
  let ?pre = "(if dry_run a then [] else [Query q]) @ es"
  have nopre: "Checkpoint n c \<notin> set ?pre" "filter is_checkpoint ?pre = []"
    using inner_not_checkpoint[OF es(1)] inner_no_checkpoint[OF es(1)] by auto
  from ck es(2) nopre(1)
  have "Checkpoint n c \<in> set (if r = None \<and> \<not> timed_out s'
                                then [Checkpoint name (cursor_of k s')] else [])"
    by auto
  then have r: "r = None" and nt: "\<not> timed_out s'" and nc: "n = name" "c = cursor_of k s'"
    by (simp_all split: if_splits)
  have last: "events s' = ?pre @ [Checkpoint n c]" using es(2) r nt nc by simp
  from worker_all_posted[OF en balanced_init_state wk[unfolded r]]
  have "mset (buffered_docs ?pre) = mset (posted_docs ?pre)"
    unfolding last by simp
  with r last nc nopre(2) show ?thesis by blast
qed

text \<open>
  C1: a read-only run that is not a dry run reads a record, puts its document into a
  batch, posts nothing, and still puts the checkpoint message with the advanced cursor
  on the queue: the cursor advances over a document that no sink has received.
\<close>

theorem read_only_checkpoint_without_post:
  "events (snd (process_schedd (calm [job 150]) 100 ''submit1'' (feeding\<lparr>read_only := True\<rparr>)))
     = [Query (Schedd_history (history_query 100) 10000),
        Buffered (IntV 150) (''id'', job 150),
        Checkpoint ''submit1'' (Scalar 150)] \<and>
   posted_docs (events (snd (process_schedd (calm [job 150]) 100 ''submit1''
                               (feeding\<lparr>read_only := True\<rparr>)))) = []"
  by (simp add: run_defs posted_docs_def)

text \<open>
  Where the sink of the worker's kind is switched on, the order holds: a checkpoint
  message is the last effect of the run, it carries the cursor that the worker returns,
  it is put on the queue only when nothing raised out of the worker, and by then every
  document put into a batch during the run has been accepted by the sink.
\<close>

lemma sink_on_checkpoint_after_flush:
  assumes "\<not> read_only a"
  shows "(es_feed_schedd_history a \<longrightarrow>
          Checkpoint n c \<in> set (events (snd (process_schedd w lc name a))) \<longrightarrow>
           (\<exists>v. fst (process_schedd w lc name a) = Inr v \<and> c = Scalar v) \<and>
           (\<exists>pre. events (snd (process_schedd w lc name a)) = pre @ [Checkpoint n c] \<and>
                  filter is_checkpoint pre = [] \<and>
                  mset (buffered_docs pre) = mset (posted_docs pre))) \<and>
         (es_feed_startd_history a \<longrightarrow>
          Checkpoint n c \<in> set (events (snd (process_startd w snc name a))) \<longrightarrow>
           (\<exists>v. fst (process_startd w snc name a) = Inr v \<and> c = Composite (fst v) (snd v)) \<and>
           (\<exists>pre. events (snd (process_startd w snc name a)) = pre @ [Checkpoint n c] \<and>
                  filter is_checkpoint pre = [] \<and>
                  mset (buffered_docs pre) = mset (posted_docs pre)))"
proof (intro conjI impI)
  let ?q = "Schedd_history (history_query lc) (max 10000 (process_max_documents a))"
  assume fd: "es_feed_schedd_history a"
  assume ck: "Checkpoint n c \<in> set (events (snd (process_schedd w lc name a)))"
  then have t: "\<not> time_remaining w 0 < 0"
    by (auto simp: process_schedd_def no_time_def Let_def)
  obtain r s' where wk: "worker w a Schedd name ?q (init_state lc (None, 0)) = (r, s')"
    by (cases "worker w a Schedd name ?q (init_state lc (None, 0))")
  have s': "snd (process_schedd w lc name a) = s'"
    using t wk by (cases r) (simp_all add: process_schedd_def Let_def)
  have en: "sink_enabled Schedd a" using assms fd by (simp add: sink_enabled_def feed_def)
  from worker_checkpoint_last[OF en wk ck[unfolded s']]
  have r: "r = None" and c: "c = cursor_of Schedd s'"
    and pre: "\<exists>pre. events s' = pre @ [Checkpoint n c] \<and>
      filter is_checkpoint pre = [] \<and> mset (buffered_docs pre) = mset (posted_docs pre)"
    by blast+
  show "\<exists>v. fst (process_schedd w lc name a) = Inr v \<and> c = Scalar v"
    using t wk r c by (simp add: process_schedd_def Let_def cursor_of_def)
  show "\<exists>pre. events (snd (process_schedd w lc name a)) = pre @ [Checkpoint n c] \<and>
      filter is_checkpoint pre = [] \<and> mset (buffered_docs pre) = mset (posted_docs pre)"
    using pre s' by simp
next
  let ?q = "Startd_history (fst snc) (snd snc)"
  assume fd: "es_feed_startd_history a"
  assume ck: "Checkpoint n c \<in> set (events (snd (process_startd w snc name a)))"
  then have t: "\<not> time_remaining w 0 < 0"
    by (auto simp: process_startd_def no_time_def Let_def)
  obtain r s' where wk: "worker w a Startd name ?q (init_state (snd snc) snc) = (r, s')"
    by (cases "worker w a Startd name ?q (init_state (snd snc) snc)")
  have s': "snd (process_startd w snc name a) = s'"
    using t wk by (cases r) (simp_all add: process_startd_def Let_def)
  have en: "sink_enabled Startd a" using assms fd by (simp add: sink_enabled_def feed_def)
  from worker_checkpoint_last[OF en wk ck[unfolded s']]
  have r: "r = None" and c: "c = cursor_of Startd s'"
    and pre: "\<exists>pre. events s' = pre @ [Checkpoint n c] \<and>
      filter is_checkpoint pre = [] \<and> mset (buffered_docs pre) = mset (posted_docs pre)"
    by blast+
  show "\<exists>v. fst (process_startd w snc name a) = Inr v \<and> c = Composite (fst v) (snd v)"
    using t wk r c by (simp add: process_startd_def Let_def cursor_of_def)
  show "\<exists>pre. events (snd (process_startd w snc name a)) = pre @ [Checkpoint n c] \<and>
      filter is_checkpoint pre = [] \<and> mset (buffered_docs pre) = mset (posted_docs pre)"
    using pre s' by simp
qed

subsection \<open>The preflight test\<close>

text \<open>
  With a negative remaining time at entry the worker sends the alert and returns its
  cursor; there is no query, no post and no checkpoint message.
\<close>

lemma preflight_exit:
  assumes "time_remaining w 0 < 0"
  shows "fst (process_schedd w lc name a) = Inr lc"
    and "events (snd (process_schedd w lc name a)) = [Alert ''spider history timeout warning'']"
    and "fst (process_startd w snc name a) = Inr snc"
    and "events (snd (process_startd w snc name a)) = [Alert ''spider history timeout warning'']"
  using assms by (simp_all add: process_schedd_def process_startd_def no_time_def Let_def)

text \<open>
  C9: when exactly no time is left at entry (\<^verbatim>\<open>time_remaining\<close> returns 0), the
  preflight test \<^verbatim>\<open>< 0\<close> does not fire: the worker queries the daemon, posts the
  document, puts a checkpoint on the queue and returns the advanced cursor, without an
  alert.
\<close>

theorem zero_remaining_proceeds:
  "process_schedd ((calm [job 150])\<lparr>time_remaining := (\<lambda>n. 0)\<rparr>) 100 ''submit1'' feeding
   = (Inr 150,
      \<lparr>buffered_ads = [(IntV 150, [(''id'', job 150)])], count = 1, sent_warnings = False,
        timed_out = False, last_completion = 150, since = (None, 0),
        events = [Query (Schedd_history (history_query 100) 10000),
                  Buffered (IntV 150) (''id'', job 150),
                  Post (IntV 150) [(''id'', job 150)],
                  Checkpoint ''submit1'' (Scalar 150)],
        clock_calls = 2, post_calls = 1\<rparr>)"
  by (simp add: run_defs)

subsection \<open>A record that is processed without an exception\<close>

lemma alerts_append [simp]:
  "conversion_alerts (es @ es') = conversion_alerts es + conversion_alerts es'"
  by (simp add: conversion_alerts_def)

lemma buffer_doc_fields:
  "count (buffer_doc idx entry s) = count s"
  "last_completion (buffer_doc idx entry s) = last_completion s"
  "since (buffer_doc idx entry s) = since s"
  "timed_out (buffer_doc idx entry s) = timed_out s"
  "sent_warnings (buffer_doc idx entry s) = sent_warnings s"
  "clock_calls (buffer_doc idx entry s) = clock_calls s"
  "post_calls (buffer_doc idx entry s) = post_calls s"
  "buffered_docs (events (buffer_doc idx entry s)) = buffered_docs (events s) @ [entry]"
  "conversion_alerts (events (buffer_doc idx entry s)) = conversion_alerts (events s)"
  by (simp_all add: buffer_doc_def conversion_alerts_def)

lemma post_alerts:
  "post w idx l s = (r, s') \<Longrightarrow> conversion_alerts (events s') = conversion_alerts (events s)"
  by (auto simp: post_def conversion_alerts_def split: option.splits)

lemma flush_full_fields:
  assumes "flush_full w a k idx s = (r, s')"
  shows "count s' = count s" and "last_completion s' = last_completion s"
    and "since s' = since s" and "timed_out s' = timed_out s"
    and "sent_warnings s' = sent_warnings s" and "clock_calls s' = clock_calls s"
    and "buffered_docs (events s') = buffered_docs (events s)"
    and "conversion_alerts (events s') = conversion_alerts (events s)"
proof -
  let ?l = "dict_get (buffered_ads s) idx []"
  obtain r1 s1 where p: "post w idx ?l s = (r1, s1)" by (cases "post w idx ?l s")
  have "s' = s \<or> s' = s1 \<or> s' = s1\<lparr>buffered_ads := dict_set (buffered_ads s1) idx []\<rparr>
        \<or> s' = s\<lparr>buffered_ads := dict_set (buffered_ads s) idx []\<rparr>"
    using assms p by (auto simp: flush_full_def Let_def split: if_splits option.splits)
  with post_fields[OF p] post_alerts[OF p]
  show "count s' = count s" and "last_completion s' = last_completion s"
    and "since s' = since s" and "timed_out s' = timed_out s"
    and "sent_warnings s' = sent_warnings s" and "clock_calls s' = clock_calls s"
    and "buffered_docs (events s') = buffered_docs (events s)"
    and "conversion_alerts (events s') = conversion_alerts (events s)"
    by auto
qed

lemma flush_full_ok:
  assumes "\<forall>n. post_ads w n = None"
  shows "fst (flush_full w a k idx s) = None"
  using assms by (auto simp: flush_full_def Let_def post_def split: option.splits)

lemma advance_ok:
  assumes "ad_get ad ''EnteredCurrentStatus'' = Some (IntV t)"
  shows "advance k ad s =
     (None, if t > last_completion s then
              (case k of Schedd \<Rightarrow> s\<lparr>last_completion := t\<rparr>
               | Startd \<Rightarrow> s\<lparr>last_completion := t, since := (ad_get ad ''GlobalJobId'', t)\<rparr>)
            else s)"
  using assms by (simp add: advance_def)

lemma advance_fields:
  assumes "advance k ad s = (r, s')"
  shows "count s' = count s" and "timed_out s' = timed_out s"
    and "sent_warnings s' = sent_warnings s" and "clock_calls s' = clock_calls s"
    and "events s' = events s" and "buffered_ads s' = buffered_ads s"
  using assms by (auto simp: advance_def split: option.splits val.splits kind.splits if_splits)

lemma check_limits_fields:
  assumes "check_limits w a s = (fl, s')"
  shows "count s' = count s" and "last_completion s' = last_completion s"
    and "since s' = since s" and "sent_warnings s' = sent_warnings s"
    and "buffered_docs (events s') = buffered_docs (events s)"
    and "conversion_alerts (events s') = conversion_alerts (events s)"
    and "clock_calls s' = Suc (clock_calls s)"
  using assms by (auto simp: check_limits_def Let_def conversion_alerts_def split: if_splits)

lemma check_limits_in_time:
  assumes "0 \<le> time_remaining w (clock_calls s)" and "check_limits w a s = (fl, s')"
  shows "timed_out s' = timed_out s"
    and "fl = (if process_max_documents a \<noteq> 0 \<and> count s > process_max_documents a then Break else Next)"
  using assms by (auto simp: check_limits_def Let_def split: if_splits)

text \<open>
  The outcome of the loop body on a record that converts and raises nowhere.
\<close>

lemma step_normal:
  assumes j: "to_json w ad = Some d"
    and e: "ad_get ad ''EnteredCurrentStatus'' = Some (IntV t)"
    and i: "index_time (str_int w) (launch_time w) (es_index_date_attr a) ad = Inr v"
    and p: "\<forall>n. post_ads w n = None"
    and c: "\<forall>n. 0 \<le> time_remaining w n"
    and st: "step w a k ad s = (fl, s')"
  shows "fl = (if process_max_documents a \<noteq> 0 \<and> count s + 1 > process_max_documents a
               then Break else Next) \<and>
    count s' = count s + 1 \<and>
    last_completion s' = max (last_completion s) t \<and>
    since s' = (if k = Startd \<and> t > last_completion s then (ad_get ad ''GlobalJobId'', t) else since s) \<and>
    timed_out s' = timed_out s \<and>
    sent_warnings s' = sent_warnings s \<and>
    buffered_docs (events s') = buffered_docs (events s) @ [(unique_doc_id w d, d)] \<and>
    conversion_alerts (events s') = conversion_alerts (events s)"
  using st
proof (cases rule: step_cases)
  case Failed
  with j show ?thesis by simp
next
  case (Index_raises d' e')
  with i show ?thesis by simp
next
  case (Flush_raises d' t' e')
  with flush_full_ok[OF p, of a k "get_index w t'" "buffer_doc (get_index w t') (unique_doc_id w d', d') s"]
  show ?thesis by simp
next
  case (Advance_raises d' t' s2 e')
  with advance_ok[OF e, of k "s2\<lparr>count := count s2 + 1\<rparr>"]
  show ?thesis by simp
next
  case (Through d' t' s2 s3)
  have d': "d' = d" using Through(1) j by simp
  note ff = flush_full_fields[OF Through(3)]
  note bf = buffer_doc_fields[of "get_index w t'" "(unique_doc_id w d', d')" s]
  note af = advance_fields[OF Through(4)]
  note cf = check_limits_fields[OF Through(5)]
  note ct = check_limits_in_time[OF c[rule_format] Through(5)]
  have s3: "s3 = (if t > last_completion s2 then
              (case k of Schedd \<Rightarrow> s2\<lparr>count := count s2 + 1, last_completion := t\<rparr>
               | Startd \<Rightarrow> s2\<lparr>count := count s2 + 1, last_completion := t,
                                since := (ad_get ad ''GlobalJobId'', t)\<rparr>)
            else s2\<lparr>count := count s2 + 1\<rparr>)"
    using Through(4) advance_ok[OF e, of k "s2\<lparr>count := count s2 + 1\<rparr>"]
    by (auto split: kind.splits)
  have c3: "count s3 = count s + 1" using af(1) ff(1) bf(1) by simp
  have 1: "fl = (if process_max_documents a \<noteq> 0 \<and> count s + 1 > process_max_documents a
               then Break else Next)" using ct(2) c3 by simp
  have 2: "count s' = count s + 1" using cf(1) c3 by simp
  have 3: "last_completion s' = max (last_completion s) t"
    using cf(2) s3 ff(2) bf(2) by (auto split: kind.splits)
  have 4: "since s' = (if k = Startd \<and> t > last_completion s then (ad_get ad ''GlobalJobId'', t) else since s)"
    using cf(3) s3 ff(2,3) bf(2,3) by (cases k) auto
  have 5: "timed_out s' = timed_out s" using ct(1) af(2) ff(4) bf(4) by simp
  have 6: "sent_warnings s' = sent_warnings s" using cf(4) af(3) ff(5) bf(5) by simp
  have 7: "buffered_docs (events s') = buffered_docs (events s) @ [(unique_doc_id w d, d)]"
    using cf(5) af(5) ff(7) bf(8) d' by simp
  have 8: "conversion_alerts (events s') = conversion_alerts (events s)"
    using cf(6) af(5) ff(8) bf(9) by simp
  from 1 2 3 4 5 6 7 8 show ?thesis by blast
qed

lemma conversion_failed_fields:
  "count (conversion_failed s) = count s"
  "last_completion (conversion_failed s) = last_completion s"
  "since (conversion_failed s) = since s"
  "timed_out (conversion_failed s) = timed_out s"
  "sent_warnings (conversion_failed s) = True"
  "buffered_docs (events (conversion_failed s)) = buffered_docs (events s)"
  "conversion_alerts (events (conversion_failed s))
     = conversion_alerts (events s) + (if sent_warnings s then 0 else 1)"
  by (simp_all add: conversion_failed_def conversion_alerts_def)

lemma derived_Cons:
  "derived w (ad # ads) =
     (case to_json w ad of None \<Rightarrow> [] | Some d \<Rightarrow> [(unique_doc_id w d, d)]) @ derived w ads"
  by (simp add: derived_def)

lemma stamps_Cons:
  "stamps w (ad # ads) =
     (case to_json w ad of None \<Rightarrow> []
      | Some d \<Rightarrow> (case ad_get ad ''EnteredCurrentStatus'' of Some (IntV t) \<Rightarrow> [t] | _ \<Rightarrow> []))
     @ stamps w ads"
  by (simp add: stamps_def)

lemma loop_uncapped:
  assumes p: "\<forall>n. post_ads w n = None"
    and c: "\<forall>n. 0 \<le> time_remaining w n"
    and m: "process_max_documents a = 0"
  shows "\<forall>ad\<in>set ads. to_json w ad \<noteq> None \<longrightarrow>
           (\<exists>t. ad_get ad ''EnteredCurrentStatus'' = Some (IntV t)) \<and>
           (\<exists>v. index_time (str_int w) (launch_time w) (es_index_date_attr a) ad = Inr v) \<Longrightarrow>
    \<exists>s'. loop w a k ads s = (Next, s') \<and>
      last_completion s' = fold max (stamps w ads) (last_completion s) \<and>
      timed_out s' = timed_out s \<and>
      buffered_docs (events s') = buffered_docs (events s) @ derived w ads \<and>
      conversion_alerts (events s') = conversion_alerts (events s) +
         (if \<not> sent_warnings s \<and> (\<exists>ad\<in>set ads. to_json w ad = None) then 1 else 0) \<and>
      sent_warnings s' = (sent_warnings s \<or> (\<exists>ad\<in>set ads. to_json w ad = None))"
proof (induction ads arbitrary: s)
  case Nil
  then show ?case by (simp add: derived_def stamps_def)
next
  case (Cons ad ads)
  have wf: "\<forall>ad\<in>set ads. to_json w ad \<noteq> None \<longrightarrow>
           (\<exists>t. ad_get ad ''EnteredCurrentStatus'' = Some (IntV t)) \<and>
           (\<exists>v. index_time (str_int w) (launch_time w) (es_index_date_attr a) ad = Inr v)"
    using Cons.prems by simp
  show ?case
  proof (cases "to_json w ad")
    case None
    have st: "step w a k ad s = (Next, conversion_failed s)" by (rule step_failed[OF None])
    from Cons.IH[OF wf, of "conversion_failed s"] obtain s' where
      s': "loop w a k ads (conversion_failed s) = (Next, s')"
      "last_completion s' = fold max (stamps w ads) (last_completion (conversion_failed s))"
      "timed_out s' = timed_out (conversion_failed s)"
      "buffered_docs (events s') = buffered_docs (events (conversion_failed s)) @ derived w ads"
      "conversion_alerts (events s') = conversion_alerts (events (conversion_failed s)) +
         (if \<not> sent_warnings (conversion_failed s) \<and> (\<exists>ad\<in>set ads. to_json w ad = None) then 1 else 0)"
      "sent_warnings s' = (sent_warnings (conversion_failed s) \<or> (\<exists>ad\<in>set ads. to_json w ad = None))"
      by blast
    have "loop w a k (ad # ads) s = (Next, s')" using st s'(1) by simp
    moreover have "derived w (ad # ads) = derived w ads" "stamps w (ad # ads) = stamps w ads"
      using None by (simp_all add: derived_Cons stamps_Cons)
    ultimately show ?thesis
      using s'(2-6) None by (simp add: conversion_failed_fields)
  next
    case (Some d)
    with Cons.prems obtain t v where t: "ad_get ad ''EnteredCurrentStatus'' = Some (IntV t)"
      and v: "index_time (str_int w) (launch_time w) (es_index_date_attr a) ad = Inr v" by auto
    obtain fl s1 where st: "step w a k ad s = (fl, s1)" by (cases "step w a k ad s")
    note n = step_normal[OF Some t v p c st, unfolded m]
    have fl: "fl = Next" using n by simp
    from Cons.IH[OF wf, of s1] obtain s' where
      s': "loop w a k ads s1 = (Next, s')"
      "last_completion s' = fold max (stamps w ads) (last_completion s1)"
      "timed_out s' = timed_out s1"
      "buffered_docs (events s') = buffered_docs (events s1) @ derived w ads"
      "conversion_alerts (events s') = conversion_alerts (events s1) +
         (if \<not> sent_warnings s1 \<and> (\<exists>ad\<in>set ads. to_json w ad = None) then 1 else 0)"
      "sent_warnings s' = (sent_warnings s1 \<or> (\<exists>ad\<in>set ads. to_json w ad = None))"
      by blast
    have "loop w a k (ad # ads) s = (Next, s')" using st fl s'(1) by simp
    moreover have "derived w (ad # ads) = (unique_doc_id w d, d) # derived w ads"
      "stamps w (ad # ads) = t # stamps w ads"
      using Some t by (simp_all add: derived_Cons stamps_Cons)
    ultimately show ?thesis
      using s'(2-6) n Some by (simp add: max.commute)
  qed
qed

lemma loop_capped:
  assumes p: "\<forall>n. post_ads w n = None"
    and c: "\<forall>n. 0 \<le> time_remaining w n"
    and m: "0 < process_max_documents a"
  shows "\<forall>ad\<in>set ads. to_json w ad \<noteq> None \<longrightarrow>
           (\<exists>t. ad_get ad ''EnteredCurrentStatus'' = Some (IntV t)) \<and>
           (\<exists>v. index_time (str_int w) (launch_time w) (es_index_date_attr a) ad = Inr v) \<Longrightarrow>
    count s \<le> process_max_documents a \<Longrightarrow>
    process_max_documents a - count s < int (length (stamps w ads)) \<Longrightarrow>
    \<exists>s'. loop w a k ads s = (Break, s') \<and>
      count s' = process_max_documents a + 1 \<and>
      last_completion s' = fold max (take (nat (process_max_documents a + 1 - count s)) (stamps w ads))
                             (last_completion s) \<and>
      timed_out s' = timed_out s"
proof (induction ads arbitrary: s)
  case Nil
  then show ?case by (simp add: stamps_def)
next
  case (Cons ad ads)
  have wf: "\<forall>ad\<in>set ads. to_json w ad \<noteq> None \<longrightarrow>
           (\<exists>t. ad_get ad ''EnteredCurrentStatus'' = Some (IntV t)) \<and>
           (\<exists>v. index_time (str_int w) (launch_time w) (es_index_date_attr a) ad = Inr v)"
    using Cons.prems(1) by simp
  show ?case
  proof (cases "to_json w ad")
    case None
    have st: "step w a k ad s = (Next, conversion_failed s)" by (rule step_failed[OF None])
    have eq: "stamps w (ad # ads) = stamps w ads" using None by (simp add: stamps_Cons)
    from Cons.IH[OF wf, of "conversion_failed s"] Cons.prems(2,3) eq
    obtain s' where s': "loop w a k ads (conversion_failed s) = (Break, s')"
      "count s' = process_max_documents a + 1"
      "last_completion s' = fold max (take (nat (process_max_documents a + 1 - count s)) (stamps w ads))
                             (last_completion s)"
      "timed_out s' = timed_out s"
      by (auto simp: conversion_failed_fields)
    have "loop w a k (ad # ads) s = (Break, s')" using st s'(1) by simp
    with s'(2-4) eq show ?thesis by simp
  next
    case (Some d)
    with Cons.prems(1) obtain t v where t: "ad_get ad ''EnteredCurrentStatus'' = Some (IntV t)"
      and v: "index_time (str_int w) (launch_time w) (es_index_date_attr a) ad = Inr v" by auto
    obtain fl s1 where st: "step w a k ad s = (fl, s1)" by (cases "step w a k ad s")
    note n = step_normal[OF Some t v p c st]
    have eq: "stamps w (ad # ads) = t # stamps w ads" using Some t by (simp add: stamps_Cons)
    show ?thesis
    proof (cases "count s = process_max_documents a")
      case True
      with n m have "fl = Break" by simp
      then have "loop w a k (ad # ads) s = (Break, s1)" using st by simp
      with n True eq show ?thesis by (simp add: max.commute)
    next
      case False
      with Cons.prems(2) have lt: "count s < process_max_documents a" by simp
      with n have fl: "fl = Next" by simp
      have c1: "count s1 \<le> process_max_documents a" using n lt by simp
      have l1: "process_max_documents a - count s1 < int (length (stamps w ads))"
        using Cons.prems(3) eq n by simp
      from Cons.IH[OF wf c1 l1] obtain s' where s': "loop w a k ads s1 = (Break, s')"
        "count s' = process_max_documents a + 1"
        "last_completion s' = fold max (take (nat (process_max_documents a + 1 - count s1)) (stamps w ads))
                             (last_completion s1)"
        "timed_out s' = timed_out s1"
        by blast
      have "loop w a k (ad # ads) s = (Break, s')" using st fl s'(1) by simp
      moreover have "take (nat (process_max_documents a + 1 - count s)) (t # stamps w ads)
           = t # take (nat (process_max_documents a + 1 - count s1)) (stamps w ads)"
      proof -
        have "count s1 = count s + 1" using n by simp
        with lt have "nat (process_max_documents a + 1 - count s)
            = Suc (nat (process_max_documents a + 1 - count s1))"
          by arith
        then show ?thesis by (simp only: take_Suc_Cons)
      qed
      ultimately show ?thesis using s'(2-4) n eq by (simp add: max.commute)
    qed
  qed
qed

subsection \<open>A run in which no post fails\<close>

lemma post_remaining_ok:
  assumes "\<forall>n. post_ads w n = None"
  shows "fst (post_remaining w en items s) = None"
proof (induction items arbitrary: s)
  case Nil
  then show ?case by simp
next
  case (Cons it items)
  obtain idx l where it: "it = (idx, l)" by (cases it)
  show ?case
  proof (cases "l \<noteq> [] \<and> en")
    case False
    with Cons.IH[of s] it show ?thesis by auto
  next
    case True
    obtain r1 s1 where p: "post w idx l s = (r1, s1)" by (cases "post w idx l s")
    have "r1 = None" using post_result[OF p] assms by simp
    with Cons.IH[of s1] it p True show ?thesis by simp
  qed
qed

lemma post_remaining_alerts:
  "post_remaining w en items s = (r, s') \<Longrightarrow>
   conversion_alerts (events s') = conversion_alerts (events s)"
proof (induction items arbitrary: s)
  case Nil
  then show ?case by simp
next
  case (Cons it items)
  obtain idx l where it: "it = (idx, l)" by (cases it)
  show ?case
  proof (cases "l \<noteq> [] \<and> en")
    case False
    with Cons.prems it have "post_remaining w en items s = (r, s')" by auto
    from Cons.IH[OF this] show ?thesis .
  next
    case True
    obtain r1 s1 where p: "post w idx l s = (r1, s1)" by (cases "post w idx l s")
    show ?thesis
    proof (cases r1)
      case None
      with Cons.prems it True p have "post_remaining w en items s1 = (r, s')" by simp
      from Cons.IH[OF this] post_alerts[OF p] show ?thesis by simp
    next
      case (Some e)
      with Cons.prems it True p post_alerts[OF p] show ?thesis by simp
    qed
  qed
qed

lemma harvest_loop:
  assumes "\<not> dry_run a"
    and "loop w a k (fst (history w q)) (s\<lparr>events := events s @ [Query q]\<rparr>) = (fl, s1)"
    and "fl = Break \<or> (fl = Next \<and> snd (history w q) = None)"
  shows "harvest w a k q s = s1"
  using assms by (auto simp: harvest_def)

lemma worker_after_loop:
  assumes p: "\<forall>n. post_ads w n = None"
    and nd: "\<not> dry_run a"
    and lp: "loop w a k (fst (history w q)) (s\<lparr>events := events s @ [Query q]\<rparr>) = (fl, s1)"
    and ok: "fl = Break \<or> (fl = Next \<and> snd (history w q) = None)"
    and nt: "\<not> timed_out s1"
    and wk: "worker w a k name q s = (r, s2)"
  shows "r = fromtimestamp w (last_completion s1) \<and>
           count s2 = count s1 \<and> last_completion s2 = last_completion s1 \<and>
           since s2 = since s1 \<and> \<not> timed_out s2 \<and>
           buffered_docs (events s2) = buffered_docs (events s1) \<and>
           conversion_alerts (events s2) = conversion_alerts (events s1) \<and>
           (r = None \<longrightarrow> last (events s2) = Checkpoint name (cursor_of k s1))"
proof -
  have h: "harvest w a k q s = s1" by (rule harvest_loop[OF nd lp ok])
  have no: "e' = None" if "post_remaining w (sink_enabled k a) (buffered_ads s1) s1 = (e', s3)" for e' s3
    using post_remaining_ok[OF p, of "sink_enabled k a" "buffered_ads s1" s1] that by simp
  have f: "count s3 = count s1 \<and> last_completion s3 = last_completion s1 \<and> since s3 = since s1
      \<and> timed_out s3 = timed_out s1 \<and> buffered_docs (events s3) = buffered_docs (events s1)
      \<and> conversion_alerts (events s3) = conversion_alerts (events s1) \<and> cursor_of k s3 = cursor_of k s1"
    if "post_remaining w (sink_enabled k a) (buffered_ads s1) s1 = (e', s3)" for e' s3
    using post_remaining_fields[OF that] post_remaining_alerts[OF that]
    by (simp add: cursor_of_def split: kind.splits)
  from wk show ?thesis
  proof (cases rule: worker_cases)
    case (Flush_raised e)
    with no[OF Flush_raised(1)[unfolded h]] show ?thesis by simp
  next
    case (Format_raised s3 e)
    with f[OF Format_raised(1)[unfolded h]] nt show ?thesis by simp
  next
    case (Timed_out s3)
    with f[OF Timed_out(1)[unfolded h]] nt show ?thesis by simp
  next
    case (Checkpointed s3)
    with f[OF Checkpointed(1)[unfolded h]] nt show ?thesis by (simp add: conversion_alerts_def)
  qed
qed

lemma init_state_fields [simp]:
  "count (init_state lc sn) = 0" "last_completion (init_state lc sn) = lc"
  "since (init_state lc sn) = sn" "timed_out (init_state lc sn) = False"
  "sent_warnings (init_state lc sn) = False"
  by (simp_all add: init_state_def)

subsection \<open>The cap on the number of records\<close>

text \<open>
  A capped schedd run over more records than the cap.
\<close>

lemma schedd_capped:
  assumes p: "\<forall>n. post_ads w n = None"
    and c: "\<forall>n. 0 \<le> time_remaining w n"
    and nd: "\<not> dry_run a"
    and m: "0 < process_max_documents a"
    and h: "fst (history w (Schedd_history (history_query lc) (max 10000 (process_max_documents a)))) = ads"
    and wf: "\<forall>ad\<in>set ads. to_json w ad \<noteq> None \<longrightarrow>
           (\<exists>t. ad_get ad ''EnteredCurrentStatus'' = Some (IntV t)) \<and>
           (\<exists>v. index_time (str_int w) (launch_time w) (es_index_date_attr a) ad = Inr v)"
    and more: "process_max_documents a < int (length (stamps w ads))"
    and ft: "\<forall>t. fromtimestamp w t = None"
  shows "count (snd (process_schedd w lc name a)) = process_max_documents a + 1 \<and>
         fst (process_schedd w lc name a)
           = Inr (fold max (take (nat (process_max_documents a + 1)) (stamps w ads)) lc) \<and>
         \<not> timed_out (snd (process_schedd w lc name a)) \<and>
         last (events (snd (process_schedd w lc name a)))
           = Checkpoint name
               (Scalar (fold max (take (nat (process_max_documents a + 1)) (stamps w ads)) lc))"
proof -
  define q where "q = Schedd_history (history_query lc) (max 10000 (process_max_documents a))"
  define s0 :: "'a lstate" where "s0 = (init_state lc (None, 0))\<lparr>events := events (init_state lc (None, 0)) @ [Query q]\<rparr>"
  have f0: "count s0 = 0" "last_completion s0 = lc" "\<not> timed_out s0"
    by (simp_all add: s0_def)
  have c0: "count s0 \<le> process_max_documents a" using m f0 by simp
  have l0: "process_max_documents a - count s0 < int (length (stamps w ads))"
    using more f0 by simp
  from loop_capped[OF p c m wf c0 l0, of Schedd] obtain s1 where
    s1: "loop w a Schedd ads s0 = (Break, s1)"
      "count s1 = process_max_documents a + 1"
      "last_completion s1 = fold max (take (nat (process_max_documents a + 1 - count s0)) (stamps w ads))
                             (last_completion s0)"
      "timed_out s1 = timed_out s0"
    by blast
  have lp: "loop w a Schedd (fst (history w q)) ((init_state lc (None, 0))\<lparr>events := events (init_state lc (None, 0)) @ [Query q]\<rparr>) = (Break, s1)"
    using s1(1) h by (simp add: s0_def q_def)
  have l1: "last_completion s1 = fold max (take (nat (process_max_documents a + 1)) (stamps w ads)) lc"
    using s1(3) f0 by simp
  have nt: "\<not> timed_out s1" using s1(4) f0 by simp
  obtain r s2 where wk: "worker w a Schedd name q (init_state lc (None, 0)) = (r, s2)"
    by (cases "worker w a Schedd name q (init_state lc (None, 0))")
  have ok: "Break = Break \<or> (Break = Next \<and> snd (history w q) = None)" by simp
  note wa = worker_after_loop[OF p nd lp ok nt wk]
  have r: "r = None" using wa[THEN conjunct1] ft by simp
  have s2: "worker w a Schedd name q (init_state lc (None, 0)) = (None, s2)"
      "count s2 = count s1" "last_completion s2 = last_completion s1" "\<not> timed_out s2"
      "last (events s2) = Checkpoint name (cursor_of Schedd s1)"
    using wa r wk by simp_all
  have t: "\<not> time_remaining w 0 < 0" using c by (simp add: not_less)
  have ps: "process_schedd w lc name a = (Inr (last_completion s2), s2)"
    using t s2(1) by (simp add: process_schedd_def Let_def q_def)
  have "cursor_of Schedd s1 = Scalar (last_completion s1)" by (simp add: cursor_of_def)
  with ps s1(2) l1 s2 show ?thesis by simp
qed

text \<open>
  C3: with a cap of 10 and 15 records that all convert, the loop leaves only when the
  count exceeds the cap: 11 records are processed, and the run, which is not marked as
  timed out, puts the cursor of record 11 on the checkpoint queue.
\<close>

theorem cap_overshoot:
  "count (snd (process_schedd (calm (map job [1, 2, 3, 4, 5, 6, 7, 8, 9, 10, 11, 12, 13, 14, 15])) 0
                 ''submit1'' (feeding\<lparr>process_max_documents := 10\<rparr>))) = 11 \<and>
   fst (process_schedd (calm (map job [1, 2, 3, 4, 5, 6, 7, 8, 9, 10, 11, 12, 13, 14, 15])) 0
                 ''submit1'' (feeding\<lparr>process_max_documents := 10\<rparr>)) = Inr 11 \<and>
   \<not> timed_out (snd (process_schedd (calm (map job [1, 2, 3, 4, 5, 6, 7, 8, 9, 10, 11, 12, 13, 14, 15])) 0
                 ''submit1'' (feeding\<lparr>process_max_documents := 10\<rparr>))) \<and>
   last (events (snd (process_schedd (calm (map job [1, 2, 3, 4, 5, 6, 7, 8, 9, 10, 11, 12, 13, 14, 15])) 0
                 ''submit1'' (feeding\<lparr>process_max_documents := 10\<rparr>))))
     = Checkpoint ''submit1'' (Scalar 11)"
proof -
  let ?ads = "map job [1, 2, 3, 4, 5, 6, 7, 8, 9, 10, 11, 12, 13, 14, 15]"
  let ?w = "calm ?ads"
  let ?a = "feeding\<lparr>process_max_documents := 10\<rparr>"
  have st: "stamps ?w ?ads = [1, 2, 3, 4, 5, 6, 7, 8, 9, 10, 11, 12, 13, 14, 15]"
    by (simp add: stamps_def ad_get_def)
  have wf: "\<forall>ad\<in>set ?ads. to_json ?w ad \<noteq> None \<longrightarrow>
           (\<exists>t. ad_get ad ''EnteredCurrentStatus'' = Some (IntV t)) \<and>
           (\<exists>v. index_time (str_int ?w) (launch_time ?w) (es_index_date_attr ?a) ad = Inr v)"
    by (simp add: ad_get_def index_time_def preferred_time_def positive_attr_def)
  have tk: "take (nat (process_max_documents ?a + 1)) (stamps ?w ?ads)
      = [1, 2, 3, 4, 5, 6, 7, 8, 9, 10, 11]"
    unfolding st by (simp add: take_Cons')
  have "fold max (take (nat (process_max_documents ?a + 1)) (stamps ?w ?ads)) (0::int) = 11"
    unfolding tk by simp
  with schedd_capped[of ?w ?a 0 ?ads "''submit1''", OF _ _ _ _ _ wf] st
  show ?thesis by simp
qed

subsection \<open>How the cursor moves\<close>

lemma advance_raises: "advance k ad s = (Some e, s') \<Longrightarrow> s' = s"
  by (auto simp: advance_def split: option.splits val.splits if_splits)

lemma advance_returns:
  assumes "advance k ad s = (None, s')"
  shows "\<exists>t. ad_get ad ''EnteredCurrentStatus'' = Some (IntV t) \<and>
     ((\<not> last_completion s < t \<and> s' = s) \<or>
      (last_completion s < t \<and> last_completion s' = t \<and>
       since s' = (if k = Startd then (ad_get ad ''GlobalJobId'', t) else since s)))"
  using assms by (auto simp: advance_def split: option.splits val.splits if_splits kind.splits)

lemma step_cursor:
  assumes "step w a k ad s = (fl, s')"
  shows "(last_completion s' = last_completion s \<and> since s' = since s) \<or>
     (\<exists>t. to_json w ad \<noteq> None \<and> ad_get ad ''EnteredCurrentStatus'' = Some (IntV t) \<and>
          last_completion s < t \<and> last_completion s' = t \<and>
          since s' = (if k = Startd then (ad_get ad ''GlobalJobId'', t) else since s))"
  using assms
proof (cases rule: step_cases)
  case Failed
  then show ?thesis by (simp add: conversion_failed_fields)
next
  case (Index_raises d e)
  then show ?thesis by simp
next
  case (Flush_raises d t e)
  from flush_full_fields(2,3)[OF Flush_raises(3)] show ?thesis
    by (simp add: buffer_doc_fields)
next
  case (Advance_raises d t s2 e)
  from advance_raises[OF Advance_raises(4)] flush_full_fields(2,3)[OF Advance_raises(3)]
  show ?thesis by (simp add: buffer_doc_fields)
next
  case (Through d t s2 s3)
  have s2: "last_completion s2 = last_completion s" "since s2 = since s"
    using flush_full_fields(2,3)[OF Through(3)] by (simp_all add: buffer_doc_fields)
  have s': "last_completion s' = last_completion s3" "since s' = since s3"
    using check_limits_fields(2,3)[OF Through(5)] by simp_all
  from advance_returns[OF Through(4)] obtain u where
    u: "ad_get ad ''EnteredCurrentStatus'' = Some (IntV u)"
    "(\<not> last_completion s2 < u \<and> s3 = s2\<lparr>count := count s2 + 1\<rparr>) \<or>
      (last_completion s2 < u \<and> last_completion s3 = u \<and>
       since s3 = (if k = Startd then (ad_get ad ''GlobalJobId'', u) else since s2))"
    by auto
  from u(2) show ?thesis
  proof
    assume "\<not> last_completion s2 < u \<and> s3 = s2\<lparr>count := count s2 + 1\<rparr>"
    with s2 s' show ?thesis by simp
  next
    assume "last_completion s2 < u \<and> last_completion s3 = u \<and>
       since s3 = (if k = Startd then (ad_get ad ''GlobalJobId'', u) else since s2)"
    with s2 s' u(1) Through(1) show ?thesis by auto
  qed
qed

lemma loop_cursor:
  "loop w a k ads s = (fl, s') \<Longrightarrow>
   (last_completion s' = last_completion s \<and> since s' = since s) \<or>
   (last_completion s < last_completion s' \<and>
    (\<exists>ad\<in>set ads. to_json w ad \<noteq> None \<and>
        ad_get ad ''EnteredCurrentStatus'' = Some (IntV (last_completion s')) \<and>
        since s' = (if k = Startd then (ad_get ad ''GlobalJobId'', last_completion s') else since s)))"
proof (induction ads arbitrary: s)
  case Nil
  then show ?case by simp
next
  case (Cons ad ads)
  obtain fl1 s1 where st: "step w a k ad s = (fl1, s1)" by (cases "step w a k ad s")
  note sc = step_cursor[OF st]
  have rest: "(last_completion s' = last_completion s1 \<and> since s' = since s1) \<or>
   (last_completion s1 < last_completion s' \<and>
    (\<exists>ad\<in>set ads. to_json w ad \<noteq> None \<and>
        ad_get ad ''EnteredCurrentStatus'' = Some (IntV (last_completion s')) \<and>
        since s' = (if k = Startd then (ad_get ad ''GlobalJobId'', last_completion s') else since s1)))"
  proof (cases fl1)
    case Next
    with Cons.prems st have "loop w a k ads s1 = (fl, s')" by simp
    from Cons.IH[OF this] show ?thesis .
  next
    case Break
    with Cons.prems st show ?thesis by simp
  next
    case (Raise e)
    with Cons.prems st show ?thesis by simp
  qed
  from sc show ?case
  proof
    assume u: "last_completion s1 = last_completion s \<and> since s1 = since s"
    from rest show ?thesis
    proof
      assume "last_completion s' = last_completion s1 \<and> since s' = since s1"
      with u show ?thesis by simp
    next
      assume "last_completion s1 < last_completion s' \<and>
        (\<exists>ad\<in>set ads. to_json w ad \<noteq> None \<and>
          ad_get ad ''EnteredCurrentStatus'' = Some (IntV (last_completion s')) \<and>
          since s' = (if k = Startd then (ad_get ad ''GlobalJobId'', last_completion s') else since s1))"
      with u show ?thesis by auto
    qed
  next
    assume "\<exists>t. to_json w ad \<noteq> None \<and> ad_get ad ''EnteredCurrentStatus'' = Some (IntV t) \<and>
          last_completion s < t \<and> last_completion s1 = t \<and>
          since s1 = (if k = Startd then (ad_get ad ''GlobalJobId'', t) else since s)"
    then obtain t where t: "to_json w ad \<noteq> None" "ad_get ad ''EnteredCurrentStatus'' = Some (IntV t)"
      "last_completion s < t" "last_completion s1 = t"
      "since s1 = (if k = Startd then (ad_get ad ''GlobalJobId'', t) else since s)" by blast
    from rest show ?thesis
    proof
      assume "last_completion s' = last_completion s1 \<and> since s' = since s1"
      with t show ?thesis by auto
    next
      assume "last_completion s1 < last_completion s' \<and>
        (\<exists>ad\<in>set ads. to_json w ad \<noteq> None \<and>
          ad_get ad ''EnteredCurrentStatus'' = Some (IntV (last_completion s')) \<and>
          since s' = (if k = Startd then (ad_get ad ''GlobalJobId'', last_completion s') else since s1))"
      with t show ?thesis by (cases k) auto
    qed
  qed
qed



lemma startd_entry_fields [simp]:
  "last_completion (startd_entry snc) = snd snc" "since (startd_entry snc) = snc"
  by (simp_all add: startd_entry_def)


subsection \<open>One conversion alert at most\<close>

lemma warned_step:
  assumes "warned s" and "step w a k ad s = (fl, s')"
  shows "warned s'"
  using assms(2)
proof (cases rule: step_cases)
  case Failed
  with assms(1) show ?thesis by (simp add: warned_def conversion_failed_fields)
next
  case (Index_raises d e)
  with assms(1) show ?thesis by simp
next
  case (Flush_raises d t e)
  from flush_full_fields(5,8)[OF Flush_raises(3)] assms(1) show ?thesis
    by (simp add: warned_def buffer_doc_fields)
next
  case (Advance_raises d t s2 e)
  from advance_raises[OF Advance_raises(4)] flush_full_fields(5,8)[OF Advance_raises(3)] assms(1)
  show ?thesis by (simp add: warned_def buffer_doc_fields)
next
  case (Through d t s2 s3)
  from advance_fields(3,5)[OF Through(4)] flush_full_fields(5,8)[OF Through(3)]
    check_limits_fields(4,6)[OF Through(5)] assms(1)
  show ?thesis by (simp add: warned_def buffer_doc_fields)
qed

lemma warned_loop: "warned s \<Longrightarrow> loop w a k ads s = (fl, s') \<Longrightarrow> warned s'"
proof (induction ads arbitrary: s)
  case Nil
  then show ?case by simp
next
  case (Cons ad ads)
  obtain fl1 s1 where st: "step w a k ad s = (fl1, s1)" by (cases "step w a k ad s")
  have b: "warned s1" using warned_step[OF Cons.prems(1) st] .
  show ?case
  proof (cases fl1)
    case Next
    with Cons.prems st have "loop w a k ads s1 = (fl, s')" by simp
    from Cons.IH[OF b this] show ?thesis .
  next
    case Break
    with Cons.prems st b show ?thesis by simp
  next
    case (Raise e)
    with Cons.prems st b show ?thesis by simp
  qed
qed

lemma warned_harvest:
  assumes "warned s"
  shows "warned (harvest w a k q s)"
proof (cases "dry_run a")
  case True
  with assms show ?thesis by (simp add: harvest_def)
next
  case False
  let ?s0 = "s\<lparr>events := events s @ [Query q]\<rparr>"
  have b0: "warned ?s0" using assms by (simp add: warned_def conversion_alerts_def)
  obtain fl s1 where l: "loop w a k (fst (history w q)) ?s0 = (fl, s1)"
    by (cases "loop w a k (fst (history w q)) ?s0")
  have b1: "warned s1" using warned_loop[OF b0 l] .
  then have b2: "warned (s1\<lparr>events := events s1 @ [Alert (query_error_subject k)]\<rparr>)"
    by (cases k) (simp_all add: warned_def conversion_alerts_def query_error_subject_def)
  have "harvest w a k q s = s1 \<or>
        harvest w a k q s = s1\<lparr>events := events s1 @ [Alert (query_error_subject k)]\<rparr>"
    using False l by (simp add: harvest_def split: flow.splits option.splits exn.splits)
  with b1 b2 show ?thesis by auto
qed

lemma post_remaining_warnings:
  "post_remaining w en items s = (r, s') \<Longrightarrow> sent_warnings s' = sent_warnings s"
proof (induction items arbitrary: s)
  case Nil
  then show ?case by simp
next
  case (Cons it items)
  obtain idx l where it: "it = (idx, l)" by (cases it)
  show ?case
  proof (cases "l \<noteq> [] \<and> en")
    case False
    with Cons.prems it have "post_remaining w en items s = (r, s')" by auto
    from Cons.IH[OF this] show ?thesis .
  next
    case True
    obtain r1 s1 where p: "post w idx l s = (r1, s1)" by (cases "post w idx l s")
    show ?thesis
    proof (cases r1)
      case None
      with Cons.prems it True p have "post_remaining w en items s1 = (r, s')" by simp
      from Cons.IH[OF this] post_fields(8)[OF p] show ?thesis by simp
    next
      case (Some e)
      with Cons.prems it True p post_fields(8)[OF p] show ?thesis by simp
    qed
  qed
qed

lemma worker_one_alert:
  assumes "worker w a k name q (init_state lc sn) = (r, s')"
  shows "conversion_alerts (events s') \<le> 1"
proof -
  have "warned (init_state lc sn)" by (simp add: warned_def init_state_def conversion_alerts_def)
  then have w1: "warned (harvest w a k q (init_state lc sn))" by (rule warned_harvest)
  have *: "conversion_alerts (events s2) \<le> 1"
    if "post_remaining w (sink_enabled k a) (buffered_ads (harvest w a k q (init_state lc sn)))
          (harvest w a k q (init_state lc sn)) = (r2, s2)" for r2 s2
    using w1 post_remaining_alerts[OF that] by (simp add: warned_def)
  from assms show ?thesis
  proof (cases rule: worker_cases)
    case (Flush_raised e)
    with *[OF Flush_raised(1)] show ?thesis by simp
  next
    case (Format_raised s2 e)
    with *[OF Format_raised(1)] show ?thesis by simp
  next
    case (Timed_out s2)
    with *[OF Timed_out(1)] show ?thesis by simp
  next
    case (Checkpointed s2)
    with *[OF Checkpointed(1)] show ?thesis by (simp add: conversion_alerts_def)
  qed
qed

text \<open>
  Whatever happens in a run, at most one alert of the conversion class is sent.
\<close>

lemma at_most_one_conversion_alert:
  "conversion_alerts (events (snd (process_schedd w lc name a))) \<le> 1"
  "conversion_alerts (events (snd (process_startd w snc name a))) \<le> 1"
proof -
  let ?q = "Schedd_history (history_query lc) (max 10000 (process_max_documents a))"
  obtain r s' where wk: "worker w a Schedd name ?q (init_state lc (None, 0)) = (r, s')"
    by (cases "worker w a Schedd name ?q (init_state lc (None, 0))")
  have "snd (process_schedd w lc name a) = s' \<or>
        events (snd (process_schedd w lc name a)) = [Alert ''spider history timeout warning'']"
    using wk by (cases r) (auto simp: process_schedd_def no_time_def Let_def)
  with worker_one_alert[OF wk]
  show "conversion_alerts (events (snd (process_schedd w lc name a))) \<le> 1"
    by (auto simp: conversion_alerts_def)
next
  let ?q = "Startd_history (fst snc) (snd snc)"
  obtain r s' where wk: "worker w a Startd name ?q (init_state (snd snc) snc) = (r, s')"
    by (cases "worker w a Startd name ?q (init_state (snd snc) snc)")
  have "snd (process_startd w snc name a) = s' \<or>
        events (snd (process_startd w snc name a)) = [Alert ''spider history timeout warning'']"
    using wk by (cases r) (auto simp: process_startd_def no_time_def Let_def)
  with worker_one_alert[OF wk]
  show "conversion_alerts (events (snd (process_startd w snc name a))) \<le> 1"
    by (auto simp: conversion_alerts_def)
qed

subsection \<open>A run in which nothing but conversions fails\<close>

lemma fold_max_Max: "fold max xs (c::int) = Max (insert c (set xs))"
  using Max.set_eq_fold[of c xs] by simp

text \<open>
  A run of the worker without a cap in which every post is accepted, time is left at
  every test and the history ends without an exception.
\<close>

lemma worker_all_posted_ok:
  assumes en: "sink_enabled k a" and b: "balanced s"
    and p: "\<forall>n. post_ads w n = None"
    and wk: "worker w a k name q s = (r, s')"
  shows "mset (buffered_docs (events s')) = mset (posted_docs (events s'))"
proof -
  have b1: "balanced (harvest w a k q s)" by (rule balanced_harvest[OF en b])
  have *: "mset (buffered_docs (events s2)) = mset (posted_docs (events s2))"
    if "post_remaining w (sink_enabled k a) (buffered_ads (harvest w a k q s)) (harvest w a k q s)
          = (None, s2)" for s2
    using post_remaining_done[OF that[unfolded en[THEN eqTrueI]]] b1
    by (simp add: balanced_def pending_def)
  from wk show ?thesis
  proof (cases rule: worker_cases)
    case (Flush_raised e)
    with post_remaining_ok[OF p, of "sink_enabled k a" "buffered_ads (harvest w a k q s)"
        "harvest w a k q s"]
    show ?thesis by simp
  next
    case (Format_raised s2 e)
    with *[OF Format_raised(1)] show ?thesis by simp
  next
    case (Timed_out s2)
    with *[OF Timed_out(1)] show ?thesis by simp
  next
    case (Checkpointed s2)
    with *[OF Checkpointed(1)] show ?thesis by simp
  qed
qed

lemma worker_uncapped:
  assumes c: "\<forall>n. 0 \<le> time_remaining w n"
    and p: "\<forall>n. post_ads w n = None"
    and nd: "\<not> dry_run a"
    and m: "process_max_documents a = 0"
    and en: "sink_enabled k a"
    and h: "history w q = (ads, None)"
    and wf: "\<forall>ad\<in>set ads. to_json w ad \<noteq> None \<longrightarrow>
           (\<exists>t. ad_get ad ''EnteredCurrentStatus'' = Some (IntV t)) \<and>
           (\<exists>v. index_time (str_int w) (launch_time w) (es_index_date_attr a) ad = Inr v)"
    and wk: "worker w a k name q (init_state lc sn) = (r, s2)"
  shows "r = fromtimestamp w (Max (insert lc (set (stamps w ads)))) \<and>
     last_completion s2 = Max (insert lc (set (stamps w ads))) \<and>
     (r = None \<longrightarrow> last (events s2) = Checkpoint name (cursor_of k s2)) \<and>
     mset (posted_docs (events s2)) = mset (derived w ads) \<and>
     conversion_alerts (events s2) = (if \<exists>ad\<in>set ads. to_json w ad = None then 1 else 0) \<and>
     since s2 = since (snd (loop w a k ads
                  ((init_state lc sn)\<lparr>events := events (init_state lc sn) @ [Query q]\<rparr>))) \<and>
     ((since s2 = sn \<and> last_completion s2 = lc) \<or>
      (\<exists>ad\<in>set ads. to_json w ad \<noteq> None \<and>
          ad_get ad ''EnteredCurrentStatus'' = Some (IntV (last_completion s2)) \<and>
          since s2 = (if k = Startd then (ad_get ad ''GlobalJobId'', last_completion s2) else sn)))"
proof -
  define s0 :: "'a lstate" where "s0 = (init_state lc sn)\<lparr>events := events (init_state lc sn) @ [Query q]\<rparr>"
  have f0: "last_completion s0 = lc" "since s0 = sn" "\<not> timed_out s0" "\<not> sent_warnings s0"
    "buffered_docs (events s0) = []" "conversion_alerts (events s0) = 0"
    by (simp_all add: s0_def conversion_alerts_def)
  from loop_uncapped[OF p c m wf, where s = s0 and k = k] obtain s1 where
    s1: "loop w a k ads s0 = (Next, s1)"
      "last_completion s1 = fold max (stamps w ads) (last_completion s0)"
      "timed_out s1 = timed_out s0"
      "buffered_docs (events s1) = buffered_docs (events s0) @ derived w ads"
      "conversion_alerts (events s1) = conversion_alerts (events s0) +
         (if \<not> sent_warnings s0 \<and> (\<exists>ad\<in>set ads. to_json w ad = None) then 1 else 0)"
    by blast
  have lp: "loop w a k (fst (history w q)) ((init_state lc sn)\<lparr>events := events (init_state lc sn) @ [Query q]\<rparr>) = (Next, s1)"
    using s1(1) h by (simp add: s0_def)
  have ok: "Next = Break \<or> (Next = Next \<and> snd (history w q) = None)" using h by simp
  have nt: "\<not> timed_out s1" using s1(3) f0 by simp
  from worker_after_loop[OF p nd lp ok nt wk] have
    s2: "r = fromtimestamp w (last_completion s1)"
      "last_completion s2 = last_completion s1" "since s2 = since s1"
      "buffered_docs (events s2) = buffered_docs (events s1)"
      "conversion_alerts (events s2) = conversion_alerts (events s1)"
      "r = None \<longrightarrow> last (events s2) = Checkpoint name (cursor_of k s1)"
    by blast+
  have cur: "cursor_of k s2 = cursor_of k s1" using s2(2,3) by (simp add: cursor_of_def split: kind.splits)
  have l1: "last_completion s1 = Max (insert lc (set (stamps w ads)))"
    using s1(2) f0 by (simp add: fold_max_Max)
  have 0: "r = fromtimestamp w (Max (insert lc (set (stamps w ads))))" using s2(1) l1 by simp
  have 1: "last_completion s2 = Max (insert lc (set (stamps w ads)))" using s2(2) l1 by simp
  have 2: "r = None \<longrightarrow> last (events s2) = Checkpoint name (cursor_of k s2)" using s2(6) cur by simp
  have 3: "mset (posted_docs (events s2)) = mset (derived w ads)"
    using worker_all_posted_ok[OF en balanced_init_state p wk] s2(4) s1(4) f0 by simp
  have 4: "conversion_alerts (events s2) = (if \<exists>ad\<in>set ads. to_json w ad = None then 1 else 0)"
    using s2(5) s1(5) f0 by simp
  have 5: "since s2 = since (snd (loop w a k ads
                  ((init_state lc sn)\<lparr>events := events (init_state lc sn) @ [Query q]\<rparr>)))"
    using s1(1) s2(3) by (simp add: s0_def)
  have 6: "(since s2 = sn \<and> last_completion s2 = lc) \<or>
      (\<exists>ad\<in>set ads. to_json w ad \<noteq> None \<and>
          ad_get ad ''EnteredCurrentStatus'' = Some (IntV (last_completion s2)) \<and>
          since s2 = (if k = Startd then (ad_get ad ''GlobalJobId'', last_completion s2) else sn))"
    using loop_cursor[OF s1(1)] f0 s2(2,3) by auto
  from 0 1 2 3 4 5 6 show ?thesis by blast
qed

text \<open>
  C8, as stated, fails: when the first record fails conversion and the next two carry the
  timestamps 100 and 50, the cursor put on the queue is 100, not the 50 of the last
  record that was processed.
\<close>

theorem cursor_is_maximum_not_last:
  "fst (process_schedd (calm [[], job 100, job 50]) 0 ''submit1'' feeding) = Inr 100 \<and>
   last (events (snd (process_schedd (calm [[], job 100, job 50]) 0 ''submit1'' feeding)))
     = Checkpoint ''submit1'' (Scalar 100) \<and>
   ad_get (last [[], job 100, job 50]) ''EnteredCurrentStatus'' = Some (IntV 50)"
  by (simp add: run_defs)

text \<open>
  C8, amended: in a run of either worker with the sink of its kind on, no cap, time left
  at every test, a history that ends without an exception and posts that are all
  accepted, where every record either fails conversion or converts and carries a numeric
  EnteredCurrentStatus (and a bucket time can be computed for it), and where the
  resulting cursor is a time that \<^verbatim>\<open>datetime.fromtimestamp\<close> accepts: the documents the sink
  accepts are exactly the documents of the records that convert; one alert of the
  conversion class is sent if some record fails and none otherwise; and the cursor put on
  the checkpoint queue and returned is the maximum of the starting cursor and the
  EnteredCurrentStatus of the records that convert. For a startd it is the pair of a
  record that attains this maximum, or the starting pair.
\<close>

theorem conversion_failures_isolated:
  assumes c: "\<forall>n. 0 \<le> time_remaining w n"
    and p: "\<forall>n. post_ads w n = None"
    and h: "\<forall>q. history w q = (ads, None)"
    and a: "\<not> read_only a" "\<not> dry_run a" "process_max_documents a = 0"
    and wf: "\<forall>ad\<in>set ads. to_json w ad \<noteq> None \<longrightarrow>
           (\<exists>t. ad_get ad ''EnteredCurrentStatus'' = Some (IntV t)) \<and>
           (\<exists>v. index_time (str_int w) (launch_time w) (es_index_date_attr a) ad = Inr v)"
  shows "(es_feed_schedd_history a \<and>
          fromtimestamp w (Max (insert lc (set (stamps w ads)))) = None \<longrightarrow>
           fst (process_schedd w lc name a) = Inr (Max (insert lc (set (stamps w ads)))) \<and>
           last (events (snd (process_schedd w lc name a)))
             = Checkpoint name (Scalar (Max (insert lc (set (stamps w ads))))) \<and>
           mset (posted_docs (events (snd (process_schedd w lc name a)))) = mset (derived w ads) \<and>
           conversion_alerts (events (snd (process_schedd w lc name a)))
             = (if \<exists>ad\<in>set ads. to_json w ad = None then 1 else 0)) \<and>
         (es_feed_startd_history a \<and>
          fromtimestamp w (Max (insert (snd snc) (set (stamps w ads)))) = None \<longrightarrow>
           (\<exists>g. fst (process_startd w snc name a)
                  = Inr (g, Max (insert (snd snc) (set (stamps w ads)))) \<and>
                last (events (snd (process_startd w snc name a)))
                  = Checkpoint name (Composite g (Max (insert (snd snc) (set (stamps w ads))))) \<and>
                ((g, Max (insert (snd snc) (set (stamps w ads)))) = snc \<or>
                 (\<exists>ad\<in>set ads. to_json w ad \<noteq> None \<and> g = ad_get ad ''GlobalJobId'' \<and>
                     ad_get ad ''EnteredCurrentStatus''
                       = Some (IntV (Max (insert (snd snc) (set (stamps w ads)))))))) \<and>
           mset (posted_docs (events (snd (process_startd w snc name a)))) = mset (derived w ads) \<and>
           conversion_alerts (events (snd (process_startd w snc name a)))
             = (if \<exists>ad\<in>set ads. to_json w ad = None then 1 else 0))"
proof (intro conjI impI)
  have t: "\<not> time_remaining w 0 < 0" using c by (simp add: not_less)
  assume fd: "es_feed_schedd_history a \<and>
          fromtimestamp w (Max (insert lc (set (stamps w ads)))) = None"
  define q where "q = Schedd_history (history_query lc) (max 10000 (process_max_documents a))"
  have en: "sink_enabled Schedd a" using a fd by (simp add: sink_enabled_def feed_def)
  obtain r s2 where wk: "worker w a Schedd name q (init_state lc (None, 0)) = (r, s2)"
    by (cases "worker w a Schedd name q (init_state lc (None, 0))")
  from worker_uncapped[OF c p a(2) a(3) en h[rule_format, of q] wf wk] fd
  have s2: "r = None"
      "last_completion s2 = Max (insert lc (set (stamps w ads)))"
      "last (events s2) = Checkpoint name (cursor_of Schedd s2)"
      "mset (posted_docs (events s2)) = mset (derived w ads)"
      "conversion_alerts (events s2) = (if \<exists>ad\<in>set ads. to_json w ad = None then 1 else 0)"
    by simp_all
  have ps: "process_schedd w lc name a = (Inr (last_completion s2), s2)"
    using t wk s2(1) by (simp add: process_schedd_def Let_def q_def)
  have cu: "cursor_of Schedd s2 = Scalar (last_completion s2)" by (simp add: cursor_of_def)
  show "fst (process_schedd w lc name a) = Inr (Max (insert lc (set (stamps w ads))))"
    using ps s2(2) by simp
  show "last (events (snd (process_schedd w lc name a)))
             = Checkpoint name (Scalar (Max (insert lc (set (stamps w ads)))))"
    using ps s2(2,3) cu by simp
  show "mset (posted_docs (events (snd (process_schedd w lc name a)))) = mset (derived w ads)"
    using ps s2(4) by simp
  show "conversion_alerts (events (snd (process_schedd w lc name a)))
             = (if \<exists>ad\<in>set ads. to_json w ad = None then 1 else 0)"
    using ps s2(5) by simp
next
  have t: "\<not> time_remaining w 0 < 0" using c by (simp add: not_less)
  assume fd: "es_feed_startd_history a \<and>
          fromtimestamp w (Max (insert (snd snc) (set (stamps w ads)))) = None"
  define q where "q = Startd_history (fst snc) (snd snc)"
  define M where "M = Max (insert (snd snc) (set (stamps w ads)))"
  have en: "sink_enabled Startd a" using a fd by (simp add: sink_enabled_def feed_def)
  obtain r s2 where wk: "worker w a Startd name q (init_state (snd snc) snc) = (r, s2)"
    by (cases "worker w a Startd name q (init_state (snd snc) snc)")
  note wu = worker_uncapped[OF c p a(2) a(3) en h[rule_format, of q] wf wk]
  have r: "r = None" using wu[THEN conjunct1] fd by simp
  have s2: "r = None"
      "last_completion s2 = M"
      "last (events s2) = Checkpoint name (cursor_of Startd s2)"
      "mset (posted_docs (events s2)) = mset (derived w ads)"
      "conversion_alerts (events s2) = (if \<exists>ad\<in>set ads. to_json w ad = None then 1 else 0)"
      "(since s2 = snc \<and> last_completion s2 = snd snc) \<or>
       (\<exists>ad\<in>set ads. to_json w ad \<noteq> None \<and>
          ad_get ad ''EnteredCurrentStatus'' = Some (IntV (last_completion s2)) \<and>
          since s2 = (if Startd = Startd then (ad_get ad ''GlobalJobId'', last_completion s2) else snc))"
    using wu r unfolding M_def by blast+
  have ps: "process_startd w snc name a = (Inr (since s2), s2)"
    using t wk s2(1) by (simp add: process_startd_def Let_def q_def)
  have sn: "snd (since s2) = M" using s2(6) s2(2) by auto
  have cur: "cursor_of Startd s2 = Composite (fst (since s2)) M"
    using sn by (simp add: cursor_of_def)
  have alt: "(fst (since s2), M) = snc \<or>
               (\<exists>ad\<in>set ads. to_json w ad \<noteq> None \<and> fst (since s2) = ad_get ad ''GlobalJobId'' \<and>
                   ad_get ad ''EnteredCurrentStatus'' = Some (IntV M))"
    using s2(6) s2(2) by (auto simp: prod_eq_iff)
  have "fst (process_startd w snc name a) = Inr (fst (since s2), M)"
    using ps sn by (simp add: prod_eq_iff)
  with ps s2(3) cur alt
  show "\<exists>g. fst (process_startd w snc name a)
                  = Inr (g, Max (insert (snd snc) (set (stamps w ads)))) \<and>
                last (events (snd (process_startd w snc name a)))
                  = Checkpoint name (Composite g (Max (insert (snd snc) (set (stamps w ads))))) \<and>
                ((g, Max (insert (snd snc) (set (stamps w ads)))) = snc \<or>
                 (\<exists>ad\<in>set ads. to_json w ad \<noteq> None \<and> g = ad_get ad ''GlobalJobId'' \<and>
                     ad_get ad ''EnteredCurrentStatus''
                       = Some (IntV (Max (insert (snd snc) (set (stamps w ads)))))))"
    unfolding M_def by auto
  show "mset (posted_docs (events (snd (process_startd w snc name a)))) = mset (derived w ads)"
    using ps s2(4) by simp
  show "conversion_alerts (events (snd (process_startd w snc name a)))
             = (if \<exists>ad\<in>set ads. to_json w ad = None then 1 else 0)"
    using ps s2(5) by simp
qed

text \<open>
  The amended C8 at work: five records of which the third fails conversion give four
  documents, one alert, and the cursor 105.
\<close>

theorem conversion_failures_isolated_witness:
  "(\<forall>n. 0 \<le> time_remaining (calm [job 101, job 102, [], job 104, job 105]) n) \<and>
   (\<forall>n. post_ads (calm [job 101, job 102, [], job 104, job 105]) n = None) \<and>
   \<not> read_only feeding \<and> \<not> dry_run feeding \<and> process_max_documents feeding = 0 \<and>
   es_feed_schedd_history feeding \<and>
   fromtimestamp (calm [job 101, job 102, [], job 104, job 105]) 105 = None \<and>
   to_json (calm [job 101, job 102, [], job 104, job 105])
     ([job 101, job 102, [], job 104, job 105] ! 2) = None \<and>
   fst (process_schedd (calm [job 101, job 102, [], job 104, job 105]) 100 ''submit1'' feeding)
     = Inr 105 \<and>
   last (events (snd (process_schedd (calm [job 101, job 102, [], job 104, job 105]) 100
                        ''submit1'' feeding)))
     = Checkpoint ''submit1'' (Scalar 105) \<and>
   length (posted_docs (events (snd (process_schedd (calm [job 101, job 102, [], job 104, job 105])
                                       100 ''submit1'' feeding)))) = 4 \<and>
   conversion_alerts (events (snd (process_schedd (calm [job 101, job 102, [], job 104, job 105])
                                     100 ''submit1'' feeding))) = 1 \<and>
   es_feed_startd_history feeding \<and>
   fst (process_startd (calm [job 101, job 102, [], job 104, job 105]) (None, 100)
          ''exec1'' feeding) = Inr (None, 105) \<and>
   length (posted_docs (events (snd (process_startd (calm [job 101, job 102, [], job 104, job 105])
                                       (None, 100) ''exec1'' feeding)))) = 4 \<and>
   conversion_alerts (events (snd (process_startd (calm [job 101, job 102, [], job 104, job 105])
                                     (None, 100) ''exec1'' feeding))) = 1"
proof -
  let ?ads = "[job 101, job 102, [], job 104, job 105]"
  let ?w = "calm ?ads"
  have wf: "\<forall>ad\<in>set ?ads. to_json ?w ad \<noteq> None \<longrightarrow>
           (\<exists>t. ad_get ad ''EnteredCurrentStatus'' = Some (IntV t)) \<and>
           (\<exists>v. index_time (str_int ?w) (launch_time ?w) (es_index_date_attr feeding) ad = Inr v)"
    by (simp add: ad_get_def index_time_def preferred_time_def positive_attr_def)
  have st: "stamps ?w ?ads = [101, 102, 104, 105]"
    by (simp add: stamps_def ad_get_def)
  have dv: "length (derived ?w ?ads) = 4"
    by (simp add: derived_def)
  note th = conversion_failures_isolated[where w = ?w and a = feeding and ads = ?ads
      and lc = 100 and name = "''submit1''" and snc = "(None, 0)", OF _ _ _ _ _ _ wf]
  have r: "fst (process_schedd ?w 100 ''submit1'' feeding) = Inr 105"
    "last (events (snd (process_schedd ?w 100 ''submit1'' feeding))) = Checkpoint ''submit1'' (Scalar 105)"
    "mset (posted_docs (events (snd (process_schedd ?w 100 ''submit1'' feeding)))) = mset (derived ?w ?ads)"
    "conversion_alerts (events (snd (process_schedd ?w 100 ''submit1'' feeding))) = 1"
    using th st by simp_all
  from mset_eq_length[OF r(3)] dv
  have l: "length (posted_docs (events (snd (process_schedd ?w 100 ''submit1'' feeding)))) = 4"
    by simp
  note th2 = conversion_failures_isolated[where w = ?w and a = feeding and ads = ?ads
      and lc = 0 and name = "''exec1''" and snc = "(None, 100)", OF _ _ _ _ _ _ wf]
  have r2: "\<exists>g. fst (process_startd ?w (None, 100) ''exec1'' feeding) = Inr (g, 105) \<and>
        ((g, 105) = (None, 100) \<or>
         (\<exists>ad\<in>set ?ads. to_json ?w ad \<noteq> None \<and> g = ad_get ad ''GlobalJobId'' \<and>
             ad_get ad ''EnteredCurrentStatus'' = Some (IntV 105)))"
    "mset (posted_docs (events (snd (process_startd ?w (None, 100) ''exec1'' feeding))))
       = mset (derived ?w ?ads)"
    "conversion_alerts (events (snd (process_startd ?w (None, 100) ''exec1'' feeding))) = 1"
    using th2 st by auto
  from r2(1) have g: "fst (process_startd ?w (None, 100) ''exec1'' feeding) = Inr (None, 105)"
    by (auto simp: ad_get_def)
  from mset_eq_length[OF r2(2)] dv
  have l2: "length (posted_docs (events (snd (process_startd ?w (None, 100) ''exec1'' feeding)))) = 4"
    by simp
  from r(1,2,4) l g l2 r2(3) show ?thesis by simp
qed

subsection \<open>Two runs against the same startd\<close>






subsection \<open>The bucket of a record\<close>

lemma buckets_append [simp]: "buckets (es @ es') = buckets es @ buckets es'"
  by (simp add: buckets_def)

lemma post_buckets: "post w idx l s = (r, s') \<Longrightarrow> buckets (events s') = buckets (events s)"
  by (auto simp: post_def buckets_def split: option.splits)

lemma flush_full_buckets:
  assumes "flush_full w a k idx s = (r, s')"
  shows "buckets (events s') = buckets (events s)"
proof -
  let ?l = "dict_get (buffered_ads s) idx []"
  obtain r1 s1 where p: "post w idx ?l s = (r1, s1)" by (cases "post w idx ?l s")
  have "s' = s \<or> s' = s1 \<or> s' = s1\<lparr>buffered_ads := dict_set (buffered_ads s1) idx []\<rparr>
        \<or> s' = s\<lparr>buffered_ads := dict_set (buffered_ads s) idx []\<rparr>"
    using assms p by (auto simp: flush_full_def Let_def split: if_splits option.splits)
  with post_buckets[OF p] show ?thesis by auto
qed

lemma check_limits_buckets:
  "check_limits w a s = (fl, s') \<Longrightarrow> buckets (events s') = buckets (events s)"
  by (auto simp: check_limits_def Let_def buckets_def split: if_splits)

lemma buffer_doc_buckets:
  "buckets (events (buffer_doc idx entry s)) = buckets (events s) @ [idx]"
  by (simp add: buffer_doc_def buckets_def)

lemma step_bucket:
  assumes j: "to_json w ad = Some d"
    and i: "index_time (str_int w) (launch_time w) (es_index_date_attr a) ad = Inr v"
  shows "buckets (events (snd (step w a k ad s))) = buckets (events s) @ [get_index w v]"
proof -
  obtain fl s' where st: "step w a k ad s = (fl, s')" by (cases "step w a k ad s")
  from st have "buckets (events s') = buckets (events s) @ [get_index w v]"
  proof (cases rule: step_cases)
    case Failed
    with j show ?thesis by simp
  next
    case (Index_raises d' e)
    with i show ?thesis by simp
  next
    case (Flush_raises d' t e)
    with flush_full_buckets[OF Flush_raises(3)] i show ?thesis
      by (simp add: buffer_doc_buckets)
  next
    case (Advance_raises d' t s2 e)
    from advance_raises[OF Advance_raises(4)] flush_full_buckets[OF Advance_raises(3)]
      Advance_raises(2) i
    show ?thesis by (simp add: buffer_doc_buckets)
  next
    case (Through d' t s2 s3)
    from advance_fields(5)[OF Through(4)] flush_full_buckets[OF Through(3)]
      check_limits_buckets[OF Through(5)] Through(2) i
    show ?thesis by (simp add: buffer_doc_buckets)
  qed
  with st show ?thesis by simp
qed

lemma preferred_time_Some:
  "ad_get ad attr = Some v \<Longrightarrow> py_int parse v = Inr n \<Longrightarrow> 0 < n \<Longrightarrow>
   preferred_time parse attr ad = Some v"
  by (simp add: preferred_time_def)

lemma preferred_time_None:
  "\<not> (\<exists>v n. ad_get ad attr = Some v \<and> py_int parse v = Inr n \<and> 0 < n) \<Longrightarrow>
   preferred_time parse attr ad = None"
  by (auto simp: preferred_time_def split: option.splits sum.splits)

lemma positive_attr_positive:
  "ad_get ad k = Some (IntV e) \<Longrightarrow> 0 < e \<Longrightarrow> positive_attr ad k = Inr (Some (IntV e))"
  by (simp add: positive_attr_def)

lemma positive_attr_string:
  "ad_get ad k = Some (StrV x) \<Longrightarrow> positive_attr ad k = Inl TypeError"
  by (simp add: positive_attr_def)

lemma positive_attr_none:
  "ad_get ad k = None \<or> (\<exists>n\<le>0. ad_get ad k = Some (IntV n)) \<Longrightarrow> positive_attr ad k = Inr None"
  by (auto simp: positive_attr_def)

text \<open>
  C7, as stated, fails: a record whose timestamps are all non-positive, processed by a
  worker that started at time 2000 in a process whose module was loaded at time 1000, is
  put into the bucket of 1000.
\<close>

theorem bucket_is_launch_time_not_worker_start:
  "buckets (events (snd (process_schedd (calm [job 0]) 0 ''submit1'' feeding))) = [IntV 1000] \<and>
   launch_time (calm [job 0]) = 1000 \<and>
   my_start (calm [job 0]) = 2000 \<and>
   get_index (calm [job 0]) (IntV (my_start (calm [job 0]))) = IntV 2000"
  by (simp add: run_defs buckets_def)

text \<open>
  C7, amended: a record that converts, with attribute values that are integers or
  strings, is put into the batch of the index of the first of these: the value of the
  configured attribute if \<^verbatim>\<open>int\<close> accepts it and finds it positive (the value itself, so a
  string such as \<^verbatim>\<open>'150'\<close> is passed on as a string); else EnteredCurrentStatus if it is a
  positive number; else QDate if it is a positive number; else the module's launch time
  \<^verbatim>\<open>_LAUNCH_TIME\<close>. An attribute that is absent counts as not positive. If
  EnteredCurrentStatus is reached and is a string, or QDate is reached and is a string,
  the comparison with 0 raises TypeError: the record is not put into any batch and the
  loop over the history ends.
\<close>

theorem bucket_priority:
  assumes "to_json w ad = Some d"
  shows
    "(ad_get ad (es_index_date_attr a) = Some v \<and> py_int (str_int w) v = Inr n \<and> 0 < n \<longrightarrow>
        buckets (events (snd (step w a k ad s))) = buckets (events s) @ [get_index w v]) \<and>
     (\<not> (\<exists>v n. ad_get ad (es_index_date_attr a) = Some v \<and> py_int (str_int w) v = Inr n \<and> 0 < n) \<longrightarrow>
        (ad_get ad ''EnteredCurrentStatus'' = Some (IntV e) \<and> 0 < e \<longrightarrow>
           buckets (events (snd (step w a k ad s))) = buckets (events s) @ [get_index w (IntV e)]) \<and>
        (ad_get ad ''EnteredCurrentStatus'' = Some (StrV x) \<longrightarrow>
           step w a k ad s = (Raise TypeError, s)) \<and>
        (ad_get ad ''EnteredCurrentStatus'' = None \<or>
         (\<exists>n\<le>0. ad_get ad ''EnteredCurrentStatus'' = Some (IntV n)) \<longrightarrow>
           (ad_get ad ''QDate'' = Some (IntV q) \<and> 0 < q \<longrightarrow>
              buckets (events (snd (step w a k ad s)))
                = buckets (events s) @ [get_index w (IntV q)]) \<and>
           (ad_get ad ''QDate'' = Some (StrV x) \<longrightarrow>
              step w a k ad s = (Raise TypeError, s)) \<and>
           (ad_get ad ''QDate'' = None \<or> (\<exists>n\<le>0. ad_get ad ''QDate'' = Some (IntV n)) \<longrightarrow>
              buckets (events (snd (step w a k ad s)))
                = buckets (events s) @ [get_index w (IntV (launch_time w))])))"
proof (intro conjI impI)
  assume "ad_get ad (es_index_date_attr a) = Some v \<and> py_int (str_int w) v = Inr n \<and> 0 < n"
  then have "index_time (str_int w) (launch_time w) (es_index_date_attr a) ad = Inr v"
    by (simp add: index_time_def preferred_time_Some)
  from step_bucket[OF assms this]
  show "buckets (events (snd (step w a k ad s))) = buckets (events s) @ [get_index w v]" .
next
  assume "\<not> (\<exists>v n. ad_get ad (es_index_date_attr a) = Some v \<and> py_int (str_int w) v = Inr n \<and> 0 < n)"
  note p = preferred_time_None[OF this]
  {
    assume "ad_get ad ''EnteredCurrentStatus'' = Some (IntV e) \<and> 0 < e"
    then have "index_time (str_int w) (launch_time w) (es_index_date_attr a) ad = Inr (IntV e)"
      by (simp add: index_time_def p positive_attr_positive)
    from step_bucket[OF assms this]
    show "buckets (events (snd (step w a k ad s))) = buckets (events s) @ [get_index w (IntV e)]" .
  next
    assume "ad_get ad ''EnteredCurrentStatus'' = Some (StrV x)"
    then have "index_time (str_int w) (launch_time w) (es_index_date_attr a) ad = Inl TypeError"
      by (simp add: index_time_def p positive_attr_string)
    from step_index_raises[OF assms this]
    show "step w a k ad s = (Raise TypeError, s)" .
  next
    assume "ad_get ad ''EnteredCurrentStatus'' = None \<or>
         (\<exists>n\<le>0. ad_get ad ''EnteredCurrentStatus'' = Some (IntV n))"
    note e = positive_attr_none[OF this]
    {
      assume "ad_get ad ''QDate'' = Some (IntV q) \<and> 0 < q"
      then have "index_time (str_int w) (launch_time w) (es_index_date_attr a) ad = Inr (IntV q)"
        by (simp add: index_time_def p e positive_attr_positive)
      from step_bucket[OF assms this]
      show "buckets (events (snd (step w a k ad s))) = buckets (events s) @ [get_index w (IntV q)]" .
    next
      assume "ad_get ad ''QDate'' = Some (StrV x)"
      then have "index_time (str_int w) (launch_time w) (es_index_date_attr a) ad = Inl TypeError"
        by (simp add: index_time_def p e positive_attr_string)
      from step_index_raises[OF assms this]
      show "step w a k ad s = (Raise TypeError, s)" .
    next
      assume "ad_get ad ''QDate'' = None \<or> (\<exists>n\<le>0. ad_get ad ''QDate'' = Some (IntV n))"
      note q = positive_attr_none[OF this]
      have "index_time (str_int w) (launch_time w) (es_index_date_attr a) ad
              = Inr (IntV (launch_time w))"
        by (simp add: index_time_def p e q)
      from step_bucket[OF assms this]
      show "buckets (events (snd (step w a k ad s)))
                = buckets (events s) @ [get_index w (IntV (launch_time w))]" .
    }
  }
qed

text \<open>
  The amended C7 at work: the configured attribute as a positive number and as a string
  that denotes one, the three fallbacks in their order, and a string in
  EnteredCurrentStatus.
\<close>

theorem bucket_priority_witness:
  "buckets (events (snd (step (calm []) feeding Schedd
      [(''CompletionDate'', IntV 150), (''EnteredCurrentStatus'', IntV 100)]
      (init_state 0 (None, 0))))) = [IntV 150] \<and>
   buckets (events (snd (step (calm []) feeding Schedd
      [(''CompletionDate'', StrV ''150''), (''EnteredCurrentStatus'', IntV 100)]
      (init_state 0 (None, 0))))) = [StrV ''150''] \<and>
   buckets (events (snd (step (calm []) feeding Schedd
      [(''CompletionDate'', StrV ''soon''), (''EnteredCurrentStatus'', IntV 200)]
      (init_state 0 (None, 0))))) = [IntV 200] \<and>
   buckets (events (snd (step (calm []) feeding Schedd
      [(''CompletionDate'', IntV 0), (''EnteredCurrentStatus'', IntV 0), (''QDate'', IntV 300)]
      (init_state 0 (None, 0))))) = [IntV 300] \<and>
   buckets (events (snd (step (calm []) feeding Schedd
      [(''CompletionDate'', IntV 0), (''EnteredCurrentStatus'', IntV 0), (''QDate'', IntV 0)]
      (init_state 0 (None, 0))))) = [IntV (launch_time (calm []))] \<and>
   step (calm []) feeding Schedd
      [(''CompletionDate'', IntV 0), (''EnteredCurrentStatus'', StrV ''100'')]
      (init_state 0 (None, 0)) = (Raise TypeError, init_state 0 (None, 0))"
proof -
  let ?w = "calm [] :: val world"
  let ?s = "init_state 0 (None, 0) :: val lstate"
  let ?a1 = "[(''CompletionDate'', IntV 150), (''EnteredCurrentStatus'', IntV 100)]"
  let ?a2 = "[(''CompletionDate'', StrV ''150''), (''EnteredCurrentStatus'', IntV 100)]"
  let ?a3 = "[(''CompletionDate'', StrV ''soon''), (''EnteredCurrentStatus'', IntV 200)]"
  let ?a4 = "[(''CompletionDate'', IntV 0), (''EnteredCurrentStatus'', IntV 0), (''QDate'', IntV 300)]"
  let ?a5 = "[(''CompletionDate'', IntV 0), (''EnteredCurrentStatus'', IntV 0), (''QDate'', IntV 0)]"
  let ?a6 = "[(''CompletionDate'', IntV 0), (''EnteredCurrentStatus'', StrV ''100'')]"
  have 1: "buckets (events (snd (step ?w feeding Schedd ?a1 ?s))) = [IntV 150]"
    using bucket_priority[where w = ?w and ad = ?a1 and d = ?a1 and a = feeding and k = Schedd
        and s = ?s and v = "IntV 150" and n = 150]
    by (simp add: ad_get_def buckets_def)
  have 2: "buckets (events (snd (step ?w feeding Schedd ?a2 ?s))) = [StrV ''150'']"
    using bucket_priority[where w = ?w and ad = ?a2 and d = ?a2 and a = feeding and k = Schedd
        and s = ?s and v = "StrV ''150''" and n = 150]
    by (simp add: ad_get_def buckets_def)
  have 3: "buckets (events (snd (step ?w feeding Schedd ?a3 ?s))) = [IntV 200]"
    using bucket_priority[where w = ?w and ad = ?a3 and d = ?a3 and a = feeding and k = Schedd
        and s = ?s and e = 200]
    by (simp add: ad_get_def buckets_def)
  have 4: "buckets (events (snd (step ?w feeding Schedd ?a4 ?s))) = [IntV 300]"
    using bucket_priority[where w = ?w and ad = ?a4 and d = ?a4 and a = feeding and k = Schedd
        and s = ?s and q = 300]
    by (simp add: ad_get_def buckets_def)
  have 5: "buckets (events (snd (step ?w feeding Schedd ?a5 ?s))) = [IntV (launch_time ?w)]"
    using bucket_priority[where w = ?w and ad = ?a5 and d = ?a5 and a = feeding and k = Schedd
        and s = ?s]
    by (simp add: ad_get_def buckets_def)
  have 6: "step ?w feeding Schedd ?a6 ?s = (Raise TypeError, ?s)"
    using bucket_priority[where w = ?w and ad = ?a6 and d = ?a6 and a = feeding and k = Schedd
        and s = ?s and x = "''100''"]
    by (simp add: ad_get_def)
  from 1 2 3 4 5 6 show ?thesis by (intro conjI)
qed

end
